theory Spec2Isabelle
  imports Complex_Main "HOL-Library.Sublist" "HOL-Library.Multiset"
begin

section \<open>Strinova Discord Rich Presence: the model of \<^verbatim>\<open>main.py\<close>\<close>

text \<open>
  Conventions of the embedding.
  \<^item> A Python \<^verbatim>\<open>float\<close> is the real number it denotes. The products of
    \<^verbatim>\<open>grab_region\<close> are rounded to double precision (\<open>double_round\<close>); the
    difference of two clock readings and the quotient of a similarity ratio are taken
    exactly.
  \<^item> Python's unbounded \<^verbatim>\<open>int\<close> is \<^typ>\<open>int\<close>; \<^verbatim>\<open>int(x)\<close> on a float
    truncates toward zero.
  \<^item> \<^verbatim>\<open>None\<close> is \<^term>\<open>None\<close>; an exception that leaves a function is a value
    \<^term>\<open>Inl e\<close> of a sum type.
  \<^item> Calls into collaborators (screen capture, Tesseract, the Discord transport, the
    wall clock) are inputs of the model: what they returned, or that they raised.
\<close>

subsection \<open>Python primitives\<close>

text \<open>\<^verbatim>\<open>int(x)\<close> for a float \<open>x\<close>: truncation toward zero.\<close>

definition py_int :: "real \<Rightarrow> int" where
  "py_int x = (if 0 \<le> x then \<lfloor>x\<rfloor> else \<lceil>x\<rceil>)"

subsection \<open>Double-precision arithmetic\<close>

text \<open>
  A Python \<^verbatim>\<open>float\<close> is an IEEE 754 double, modelled as the real number it denotes.
  Every arithmetic operation on doubles, and the conversion of an \<^verbatim>\<open>int\<close> to a
  \<^verbatim>\<open>float\<close>, returns the exact result rounded to the nearest double, ties to the
  even significand. \<open>double_round\<close> is that rounding for 53-bit significands with
  an unbounded exponent: overflow and subnormal numbers, which need magnitudes above
  \<open>1.7e308\<close> or below \<open>2.3e-308\<close>, are not modelled. A decimal of the configuration
  file denotes the double \<open>double_round\<close> of it.
\<close>

definition round_half_even :: "real \<Rightarrow> int" where
  "round_half_even q =
     (let n = \<lfloor>q\<rfloor>; f = q - of_int n
      in if f < 1 / 2 then n else if 1 / 2 < f then n + 1
         else if even n then n else n + 1)"

definition double_round :: "real \<Rightarrow> real" where
  "double_round x =
     (if x = 0 then 0
      else
        (let e = \<lfloor>log 2 \<bar>x\<bar>\<rfloor>; ulp = 2 powr (of_int e - 52)
         in of_int (round_half_even (x / ulp)) * ulp))"

text \<open>\<^verbatim>\<open>float(n)\<close> of an integer, and the product \<^verbatim>\<open>x * y\<close> of two doubles.\<close>

definition float_of_int :: "int \<Rightarrow> real" where
  "float_of_int n = double_round (of_int n)"

definition float_mul :: "real \<Rightarrow> real \<Rightarrow> real" where
  "float_mul x y = double_round (x * y)"

subsection \<open>ScreenCapture.grab_region (lines 63-79)\<close>





subsection \<open>MatchTracker (lines 175-222)\<close>

record MatchTracker =
  streak_threshold :: int
  in_match :: bool
  match_start_time :: "real option"
  no_objective_streak :: int

text \<open>\<^verbatim>\<open>__init__\<close>; the argument is \<^verbatim>\<open>objective_verification_count\<close> (default 3).\<close>

definition MatchTracker_init :: "int \<Rightarrow> MatchTracker" where
  "MatchTracker_init threshold =
     \<lparr>streak_threshold = threshold, in_match = False,
      match_start_time = None, no_objective_streak = 0\<rparr>"

text \<open>
  \<^verbatim>\<open>update\<close>: \<open>has_objective\<close> is \<^verbatim>\<open>match_info.get("has_objective", False)\<close> and \<open>now\<close>
  is what \<^verbatim>\<open>time.time()\<close> returns when the first branch reads it.
\<close>

definition MatchTracker_update :: "MatchTracker \<Rightarrow> bool \<Rightarrow> real \<Rightarrow> MatchTracker" where
  "MatchTracker_update t has_objective now =
     (if has_objective \<and> \<not> in_match t then
        t\<lparr>in_match := True, match_start_time := Some now, no_objective_streak := 0\<rparr>
      else if has_objective \<and> in_match t then
        t\<lparr>no_objective_streak := 0\<rparr>
      else if \<not> has_objective \<and> in_match t then
        (let t1 = t\<lparr>no_objective_streak := no_objective_streak t + 1\<rparr>
         in if no_objective_streak t1 \<ge> streak_threshold t1 then
              t1\<lparr>in_match := False, match_start_time := None, no_objective_streak := 0\<rparr>
            else t1)
      else t)"

text \<open>The property \<^verbatim>\<open>elapsed_seconds\<close>, read when the clock shows \<open>now\<close>.\<close>

definition elapsed_seconds :: "MatchTracker \<Rightarrow> real \<Rightarrow> int option" where
  "elapsed_seconds t now =
     (case match_start_time t of
        None \<Rightarrow> None
      | Some start \<Rightarrow> Some (py_int (now - start)))"

definition start_timestamp :: "MatchTracker \<Rightarrow> real option" where
  "start_timestamp t = match_start_time t"

text \<open>
  A tick of the tracker is the signal and the clock reading of its \<^verbatim>\<open>update\<close> call;
  \<open>tracker_run\<close> is the state after a sequence of ticks and \<open>tracker_trace\<close> the state
  after each of them.
\<close>

fun tracker_run :: "MatchTracker \<Rightarrow> (bool \<times> real) list \<Rightarrow> MatchTracker" where
  "tracker_run t [] = t"
| "tracker_run t ((h, now) # ticks) = tracker_run (MatchTracker_update t h now) ticks"

fun tracker_trace :: "MatchTracker \<Rightarrow> (bool \<times> real) list \<Rightarrow> MatchTracker list" where
  "tracker_trace t [] = []"
| "tracker_trace t ((h, now) # ticks) =
     MatchTracker_update t h now # tracker_trace (MatchTracker_update t h now) ticks"

definition tracker_inv :: "MatchTracker \<Rightarrow> bool" where
  "tracker_inv t \<longleftrightarrow>
     (in_match t \<longleftrightarrow> match_start_time t \<noteq> None) \<and>
     0 \<le> no_objective_streak t \<and> no_objective_streak t < streak_threshold t \<and>
     (\<not> in_match t \<longrightarrow> no_objective_streak t = 0)"

section \<open>MatchTracker: transition table and invariant\<close>

lemma tracker_run_append:
  "tracker_run t (xs @ ys) = tracker_run (tracker_run t xs) ys"
  by (induction xs arbitrary: t) auto

lemma tracker_inv_init: "1 \<le> th \<Longrightarrow> tracker_inv (MatchTracker_init th)"
  by (simp add: tracker_inv_def MatchTracker_init_def)

lemma tracker_inv_update: "tracker_inv t \<Longrightarrow> tracker_inv (MatchTracker_update t h now)"
  by (auto simp: tracker_inv_def MatchTracker_update_def Let_def)

lemma tracker_inv_run: "tracker_inv t \<Longrightarrow> tracker_inv (tracker_run t ticks)"
  by (induction ticks arbitrary: t) (auto simp: tracker_inv_update)

lemma tracker_inv_trace:
  "tracker_inv t \<Longrightarrow> u \<in> set (tracker_trace t ticks) \<Longrightarrow> tracker_inv u"
proof (induction ticks arbitrary: t)
  case Nil
  then show ?case by simp
next
  case (Cons tick ticks)
  obtain h now where tick: "tick = (h, now)" by (cases tick)
  from Cons.prems(1) have "tracker_inv (MatchTracker_update t h now)"
    by (rule tracker_inv_update)
  with Cons.IH Cons.prems(2) tick show ?case by auto
qed

text \<open>
  The weaker pairing of the flag with the start time does not depend on the threshold.
\<close>

definition start_paired :: "MatchTracker \<Rightarrow> bool" where
  "start_paired t \<longleftrightarrow> (in_match t \<longleftrightarrow> match_start_time t \<noteq> None)"

lemma start_paired_init: "start_paired (MatchTracker_init th)"
  by (simp add: start_paired_def MatchTracker_init_def)

lemma start_paired_update: "start_paired t \<Longrightarrow> start_paired (MatchTracker_update t h now)"
  by (auto simp: start_paired_def MatchTracker_update_def Let_def)

lemma start_paired_run: "start_paired t \<Longrightarrow> start_paired (tracker_run t ticks)"
  by (induction ticks arbitrary: t) (auto simp: start_paired_update)

text \<open>
  C1. \<open>MatchTracker_update\<close> is the transition table of the match state machine, from every
  state and so along every sequence of ticks: from NOT_IN_MATCH a present signal records
  the start time, zeroes the streak and enters IN_MATCH, an absent one changes nothing;
  from IN_MATCH a present signal zeroes the streak, an absent one increments it and,
  exactly when the incremented streak reaches the threshold, clears the start time,
  zeroes the streak and returns to NOT_IN_MATCH. The ticks
  \<open>[False, True, True, False, False, False]\<close> with threshold 3 give the \<open>in_match\<close>
  sequence \<open>[False, True, True, True, True, False]\<close>, and the only start time that is
  ever set is the clock reading of the second tick.
\<close>

theorem MatchTracker_update_transition_table:
  "(\<not> in_match t \<and> h \<longrightarrow>
      MatchTracker_update t h now =
        t\<lparr>in_match := True, match_start_time := Some now, no_objective_streak := 0\<rparr>) \<and>
   (\<not> in_match t \<and> \<not> h \<longrightarrow> MatchTracker_update t h now = t) \<and>
   (in_match t \<and> h \<longrightarrow> MatchTracker_update t h now = t\<lparr>no_objective_streak := 0\<rparr>) \<and>
   (in_match t \<and> \<not> h \<and> no_objective_streak t + 1 < streak_threshold t \<longrightarrow>
      MatchTracker_update t h now = t\<lparr>no_objective_streak := no_objective_streak t + 1\<rparr>) \<and>
   (in_match t \<and> \<not> h \<and> streak_threshold t \<le> no_objective_streak t + 1 \<longrightarrow>
      MatchTracker_update t h now =
        t\<lparr>in_match := False, match_start_time := None, no_objective_streak := 0\<rparr>) \<and>
   map in_match (tracker_trace (MatchTracker_init 3)
      [(False, c1), (True, c2), (True, c3), (False, c4), (False, c5), (False, c6)])
     = [False, True, True, True, True, False] \<and>
   map match_start_time (tracker_trace (MatchTracker_init 3)
      [(False, c1), (True, c2), (True, c3), (False, c4), (False, c5), (False, c6)])
     = [None, Some c2, Some c2, Some c2, Some c2, None]"
  by (simp add: MatchTracker_update_def MatchTracker_init_def Let_def)

theorem MatchTracker_update_transition_table_witness:
  "MatchTracker_update (MatchTracker_init 3) True 10 =
     \<lparr>streak_threshold = 3, in_match = True, match_start_time = Some 10,
      no_objective_streak = 0\<rparr> \<and>
   MatchTracker_update (MatchTracker_init 3) False 10 = MatchTracker_init 3 \<and>
   MatchTracker_update \<lparr>streak_threshold = 3, in_match = True, match_start_time = Some 10,
      no_objective_streak = 2\<rparr> True 20 =
     \<lparr>streak_threshold = 3, in_match = True, match_start_time = Some 10,
      no_objective_streak = 0\<rparr> \<and>
   MatchTracker_update \<lparr>streak_threshold = 3, in_match = True, match_start_time = Some 10,
      no_objective_streak = 1\<rparr> False 20 =
     \<lparr>streak_threshold = 3, in_match = True, match_start_time = Some 10,
      no_objective_streak = 2\<rparr> \<and>
   MatchTracker_update \<lparr>streak_threshold = 3, in_match = True, match_start_time = Some 10,
      no_objective_streak = 2\<rparr> False 20 = MatchTracker_init 3"
  using MatchTracker_update_transition_table [of "MatchTracker_init 3" True 10]
    MatchTracker_update_transition_table [of "MatchTracker_init 3" False 10]
    MatchTracker_update_transition_table [of "\<lparr>streak_threshold = 3, in_match = True,
      match_start_time = Some 10, no_objective_streak = 2\<rparr>" True 20]
    MatchTracker_update_transition_table [of "\<lparr>streak_threshold = 3, in_match = True,
      match_start_time = Some 10, no_objective_streak = 1\<rparr>" False 20]
    MatchTracker_update_transition_table [of "\<lparr>streak_threshold = 3, in_match = True,
      match_start_time = Some 10, no_objective_streak = 2\<rparr>" False 20]
  by (simp add: MatchTracker_init_def)

text \<open>
  C9. For every threshold of at least 1 the tracker satisfies, when it is created and
  after every \<open>update\<close> call of any sequence of ticks: \<open>in_match\<close> holds exactly when
  \<open>match_start_time\<close> is set, the streak counter is at least 0 and below the threshold,
  and the streak counter is 0 whenever \<open>in_match\<close> is false.
\<close>

theorem tracker_invariant:
  assumes "1 \<le> th"
  shows "tracker_inv (MatchTracker_init th) \<and>
         tracker_inv (tracker_run (MatchTracker_init th) ticks) \<and>
         (\<forall>t \<in> set (tracker_trace (MatchTracker_init th) ticks). tracker_inv t)"
proof -
  have init: "tracker_inv (MatchTracker_init th)"
    using assms by (rule tracker_inv_init)
  from init tracker_inv_trace tracker_inv_run show ?thesis by blast
qed

theorem tracker_invariant_witness:
  "tracker_inv (MatchTracker_init 3) \<and>
   tracker_inv (tracker_run (MatchTracker_init 3)
     [(True, 1), (False, 2), (False, 3), (False, 4)]) \<and>
   tracker_run (MatchTracker_init 3) [(True, 1), (False, 2), (False, 3), (False, 4)]
     = MatchTracker_init 3"
proof -
  have "(1::int) \<le> 3" by simp
  from tracker_invariant [OF this, of "[(True, 1), (False, 2), (False, 3), (False, 4)]"]
  show ?thesis by (simp add: MatchTracker_update_def MatchTracker_init_def Let_def)
qed

section \<open>Truncation to whole numbers\<close>


lemma py_int_mono: "x \<le> y \<Longrightarrow> py_int x \<le> py_int y"
proof -
  assume xy: "x \<le> y"
  show ?thesis
  proof (cases "0 \<le> x")
    case True
    with xy show ?thesis by (simp add: py_int_def floor_mono)
  next
    case False
    show ?thesis
    proof (cases "0 \<le> y")
      case True
      from False have "\<lceil>x\<rceil> \<le> 0" by (simp add: ceiling_le_iff)
      moreover from True have "0 \<le> \<lfloor>y\<rfloor>" by simp
      ultimately have "\<lceil>x\<rceil> \<le> \<lfloor>y\<rfloor>" by (rule order_trans)
      with False True show ?thesis by (simp add: py_int_def)
    next
      case y: False
      with False xy show ?thesis by (simp add: py_int_def ceiling_mono)
    qed
  qed
qed

lemma py_int_nonneg: "0 \<le> x \<Longrightarrow> 0 \<le> py_int x"
  by (simp add: py_int_def)

section \<open>MatchTracker.elapsed_seconds\<close>

lemma start_from_ticks:
  "match_start_time (tracker_run t ticks) = Some s \<Longrightarrow>
     match_start_time t = Some s \<or> s \<in> snd ` set ticks"
proof (induction ticks arbitrary: t)
  case Nil
  then show ?case by simp
next
  case (Cons tick ticks)
  obtain h c where tick: "tick = (h, c)" by (cases tick)
  from Cons.prems tick have "match_start_time (tracker_run (MatchTracker_update t h c) ticks) = Some s"
    by simp
  from Cons.IH [OF this]
  have "match_start_time (MatchTracker_update t h c) = Some s \<or> s \<in> snd ` set ticks" .
  moreover have "match_start_time (MatchTracker_update t h c) = Some s \<Longrightarrow>
      match_start_time t = Some s \<or> s = c"
    by (auto simp: MatchTracker_update_def Let_def split: if_splits)
  ultimately show ?case using tick by auto
qed

lemma start_kept:
  "in_match t \<Longrightarrow> in_match (MatchTracker_update t h c) \<Longrightarrow>
     match_start_time (MatchTracker_update t h c) = match_start_time t"
  by (auto simp: MatchTracker_update_def Let_def split: if_splits)

text \<open>
  C6 (as amended). Whenever the tracker is in NOT_IN_MATCH, \<open>elapsed_seconds\<close> is none.
  While it is in IN_MATCH, \<open>elapsed_seconds\<close> is the clock reading minus the recorded
  \<open>match_start_time\<close>, truncated to whole seconds (\<^verbatim>\<open>int(...)\<close>); given a
  monotonic clock it is non-negative, and it does not decrease from one tick to the
  next while the tracker stays in IN_MATCH.
\<close>

theorem elapsed_seconds_truncated:
  assumes clock: "sorted (map snd ticks @ [now, now1, now2])"
  shows "(\<not> in_match (tracker_run (MatchTracker_init th) ticks) \<longrightarrow>
            elapsed_seconds (tracker_run (MatchTracker_init th) ticks) now = None) \<and>
         (in_match (tracker_run (MatchTracker_init th) ticks) \<longrightarrow>
            (\<exists>s. match_start_time (tracker_run (MatchTracker_init th) ticks) = Some s \<and>
                 elapsed_seconds (tracker_run (MatchTracker_init th) ticks) now
                   = Some (py_int (now - s)) \<and>
                 0 \<le> py_int (now - s))) \<and>
         (in_match (tracker_run (MatchTracker_init th) ticks) \<and>
          in_match (MatchTracker_update (tracker_run (MatchTracker_init th) ticks) h now1) \<longrightarrow>
            (\<exists>e e'. elapsed_seconds (tracker_run (MatchTracker_init th) ticks) now = Some e \<and>
                 elapsed_seconds
                   (MatchTracker_update (tracker_run (MatchTracker_init th) ticks) h now1) now2
                   = Some e' \<and>
                 0 \<le> e \<and> e \<le> e'))"
proof -
  define t where "t = tracker_run (MatchTracker_init th) ticks"
  have paired: "start_paired t"
    unfolding t_def by (rule start_paired_run [OF start_paired_init])
  have le: "s \<le> now" if "match_start_time t = Some s" for s
  proof -
    from start_from_ticks [OF that [unfolded t_def]]
    have "s \<in> snd ` set ticks" by (simp add: MatchTracker_init_def)
    with clock show ?thesis by (auto simp: sorted_append)
  qed
  from clock have now12: "now \<le> now2" by (simp add: sorted_append)
  have a: "\<not> in_match t \<longrightarrow> elapsed_seconds t now = None"
    using paired by (simp add: start_paired_def elapsed_seconds_def)
  have b: "in_match t \<longrightarrow> (\<exists>s. match_start_time t = Some s \<and>
      elapsed_seconds t now = Some (py_int (now - s)) \<and> 0 \<le> py_int (now - s))"
  proof
    assume "in_match t"
    with paired obtain s where s: "match_start_time t = Some s"
      by (auto simp: start_paired_def)
    with le have "0 \<le> py_int (now - s)" by (simp add: py_int_nonneg)
    with s show "\<exists>s. match_start_time t = Some s \<and>
      elapsed_seconds t now = Some (py_int (now - s)) \<and> 0 \<le> py_int (now - s)"
      by (simp add: elapsed_seconds_def)
  qed
  have c: "in_match t \<and> in_match (MatchTracker_update t h now1) \<longrightarrow>
      (\<exists>e e'. elapsed_seconds t now = Some e \<and>
         elapsed_seconds (MatchTracker_update t h now1) now2 = Some e' \<and> 0 \<le> e \<and> e \<le> e')"
  proof
    assume both: "in_match t \<and> in_match (MatchTracker_update t h now1)"
    with paired obtain s where s: "match_start_time t = Some s"
      by (auto simp: start_paired_def)
    from both have s': "match_start_time (MatchTracker_update t h now1) = Some s"
      using start_kept s by simp
    from le s have "0 \<le> py_int (now - s)" by (simp add: py_int_nonneg)
    moreover from now12 have "py_int (now - s) \<le> py_int (now2 - s)"
      by (simp add: py_int_mono)
    ultimately show "\<exists>e e'. elapsed_seconds t now = Some e \<and>
         elapsed_seconds (MatchTracker_update t h now1) now2 = Some e' \<and> 0 \<le> e \<and> e \<le> e'"
      using s s' by (simp add: elapsed_seconds_def)
  qed
  from a b c show ?thesis unfolding t_def by blast
qed

theorem elapsed_seconds_truncated_witness:
  "elapsed_seconds (tracker_run (MatchTracker_init 3) [(False, 1), (True, 2)]) (7 / 2) = Some 1 \<and>
   elapsed_seconds (MatchTracker_update (tracker_run (MatchTracker_init 3) [(False, 1), (True, 2)])
      False 5) (23 / 4) = Some 3 \<and>
   elapsed_seconds (tracker_run (MatchTracker_init 3) [(False, 1)]) (7 / 2) = None"
proof -
  have s1: "sorted (map snd [(False, 1::real), (True, 2)] @ [7 / 2, 5, 23 / 4])" by simp
  have s2: "sorted (map snd [(False, 1::real)] @ [7 / 2, 5, 23 / 4])" by simp
  show ?thesis
    using elapsed_seconds_truncated [OF s1, of 3 False]
      elapsed_seconds_truncated [OF s2, of 3 False]
    by (simp add: MatchTracker_update_def MatchTracker_init_def Let_def elapsed_seconds_def py_int_def)
qed

text \<open>
  The value is the truncated difference, not the difference: a match detected at clock
  reading 0 and read at 1.5 has elapsed 1.
\<close>

theorem elapsed_seconds_not_difference:
  "in_match (tracker_run (MatchTracker_init 3) [(True, 0)]) \<and>
   elapsed_seconds (tracker_run (MatchTracker_init 3) [(True, 0)]) (3 / 2) = Some 1 \<and>
   real_of_int 1 \<noteq> 3 / 2 - 0"
  by (simp add: MatchTracker_update_def MatchTracker_init_def elapsed_seconds_def py_int_def)

section \<open>ScreenCapture.grab_region: the pixel bounding box\<close>

subsection \<open>Rounding to double precision is monotone and exact on whole numbers\<close>


lemma round_half_even_int: "round_half_even (of_int n) = n"
  by (simp add: round_half_even_def)


text \<open>The binade of a positive real: \<open>2 powr e \<le> x < 2 powr (e + 1)\<close>.\<close>

lemma binade:
  assumes "0 < x"
  shows "2 powr of_int \<lfloor>log 2 x\<rfloor> \<le> x \<and> x < 2 powr (of_int \<lfloor>log 2 x\<rfloor> + 1)"
proof -
  have "(of_int \<lfloor>log 2 x\<rfloor> \<le> log 2 x) = (2 powr of_int \<lfloor>log 2 x\<rfloor> \<le> x)"
    using assms by (intro le_log_iff) simp_all
  moreover have "of_int \<lfloor>log 2 x\<rfloor> \<le> log 2 x" by (rule of_int_floor_le)
  ultimately have lo: "2 powr of_int \<lfloor>log 2 x\<rfloor> \<le> x" by blast
  have less: "log 2 x < of_int \<lfloor>log 2 x\<rfloor> + 1" by linarith
  have "(log 2 x < of_int \<lfloor>log 2 x\<rfloor> + 1) = (x < 2 powr (of_int \<lfloor>log 2 x\<rfloor> + 1))"
    using assms by (intro log_less_iff) simp_all
  with less have "x < 2 powr (of_int \<lfloor>log 2 x\<rfloor> + 1)" by blast
  with lo show ?thesis by blast
qed

lemma binade_unique:
  assumes "2 powr of_int e \<le> x" "x < 2 powr (of_int e + 1)"
  shows "\<lfloor>log 2 x\<rfloor> = e"
proof -
  have "0 < 2 powr (of_int e :: real)" by simp
  with assms(1) have pos: "0 < x" by linarith
  have "(of_int e \<le> log 2 x) = (2 powr of_int e \<le> x)"
    using pos by (intro le_log_iff) simp_all
  with assms(1) have lo: "of_int e \<le> log 2 x" by blast
  have "(log 2 x < of_int e + 1) = (x < 2 powr (of_int e + 1))"
    using pos by (intro log_less_iff) simp_all
  with assms(2) have hi: "log 2 x < of_int e + 1" by blast
  from lo hi show ?thesis by (rule floor_unique)
qed

text \<open>
  With \<open>m\<close> the power of two at the bottom of the binade of \<open>x\<close>, \<open>double_round x\<close>
  is \<open>round_half_even (x * 2^52 / m) * m / 2^52\<close> and lies between \<open>m\<close> and \<open>2 * m\<close>.
\<close>

lemma double_round_binade:
  assumes "0 < m" "m \<le> x" "x < 2 * m" "m = 2 powr of_int e"
  shows "double_round x = of_int (round_half_even (x * 2 ^ 52 / m)) * m / 2 ^ 52"
proof -
  from assms have pos: "0 < x" by linarith
  have "2 powr (of_int e + 1) = 2 * m" using assms(4) by (simp add: powr_add)
  with assms have e: "\<lfloor>log 2 \<bar>x\<bar>\<rfloor> = e"
    using pos by (intro binade_unique [of e "\<bar>x\<bar>"]) simp_all
  have ulp: "2 powr (of_int e - 52) = m / 2 ^ 52"
    using assms(4) by (simp add: powr_diff)
  from pos have "x \<noteq> 0" by simp
  then show ?thesis
    by (simp add: double_round_def Let_def e ulp)
qed





text \<open>Integers below \<open>2^53\<close> are doubles.\<close>

lemma double_round_int:
  assumes "0 \<le> n" "n < 2 ^ 53"
  shows "double_round (of_int n) = of_int n"
proof (cases "n = 0")
  case True
  then show ?thesis by (simp add: double_round_def)
next
  case False
  with assms have pos: "0 < (of_int n :: real)" by simp
  define e where "e = \<lfloor>log 2 (of_int n)\<rfloor>"
  define m :: real where "m = 2 powr of_int e"
  have m: "0 < m" by (simp add: m_def)
  from binade [OF pos] have b: "m \<le> of_int n" "of_int n < 2 * m"
    by (simp_all add: m_def e_def powr_add)
  from False assms have "1 \<le> (of_int n :: real)" by simp
  then have "0 \<le> log 2 (of_int n)" by simp
  then have e0: "0 \<le> e" unfolding e_def by simp
  from assms(2) have "(of_int n :: real) < 2 ^ 53" by (metis of_int_less_iff of_int_numeral of_int_power)
  then have "log 2 (of_int n) < 53"
    using pos by (simp add: log_less_iff)
  then have e52: "e \<le> 52" unfolding e_def by (simp add: floor_le_iff)
  define k where "k = nat e"
  from e0 e52 have k: "k \<le> 52" "e = int k" by (simp_all add: k_def)
  define P K :: real where "P = 2 ^ (52 - k)" and "K = 2 ^ k"
  have PK: "0 < P" "0 < K" by (simp_all add: P_def K_def)
  have mk: "m = K" unfolding m_def k(2) K_def by (simp add: powr_realpow)
  from k(1) have Z: "(2 :: real) ^ 52 = P * K"
    unfolding P_def K_def by (simp add: power_add [symmetric])
  have "of_int n * (P * K) / K = of_int n * P" using PK by simp
  then have "of_int n * 2 ^ 52 / m = of_int (n * 2 ^ (52 - k))"
    unfolding Z mk by (simp add: P_def)
  then have "round_half_even (of_int n * 2 ^ 52 / m) = n * 2 ^ (52 - k)"
    by (simp only: round_half_even_int)
  then have "double_round (of_int n) = of_int (n * 2 ^ (52 - k)) * m / 2 ^ 52"
    unfolding double_round_binade [OF m b m_def] by (simp only:)
  also have "\<dots> = (of_int n * P) * K / (P * K)"
    unfolding Z mk by (simp add: P_def)
  also have "\<dots> = of_int n" using PK by simp
  finally show ?thesis .
qed

subsection \<open>The bounding box\<close>








text \<open>Evaluating \<open>double_round\<close> at a number whose binade is known.\<close>

lemma double_round_at:
  fixes k :: nat
  assumes "2 ^ k \<le> x" "x < 2 * 2 ^ k"
  shows "double_round x = of_int (round_half_even (x * 2 ^ 52 / 2 ^ k)) * 2 ^ k / 2 ^ 52"
proof -
  have m: "(2 ^ k :: real) = 2 powr of_int (int k)" by (simp add: powr_realpow)
  have pos: "(0 :: real) < 2 ^ k" by simp
  from double_round_binade [OF pos assms m] show ?thesis .
qed

lemma double_round_below_one:
  fixes k :: nat
  assumes "1 \<le> x * 2 ^ k" "x * 2 ^ k < 2"
  shows "double_round x = of_int (round_half_even (x * 2 ^ 52 * 2 ^ k)) / (2 ^ 52 * 2 ^ k)"
proof -
  define m :: real where "m = 1 / 2 ^ k"
  have pos: "0 < m" by (simp add: m_def)
  have "2 powr of_int (- int k) = 1 / (2 powr of_int (int k) :: real)"
    by (simp add: powr_minus divide_inverse)
  then have m: "m = 2 powr of_int (- int k)" by (simp add: m_def powr_realpow)
  from assms(1) have lo: "m \<le> x" by (simp add: m_def pos_divide_le_eq)
  from assms(2) have hi: "x < 2 * m" by (simp add: m_def pos_less_divide_eq)
  have q: "x * 2 ^ 52 / m = x * 2 ^ 52 * 2 ^ k" by (simp add: m_def)
  have "double_round x = of_int (round_half_even (x * 2 ^ 52 / m)) * m / 2 ^ 52"
    by (rule double_round_binade [OF pos lo hi m])
  also have "\<dots> = of_int (round_half_even (x * 2 ^ 52 * 2 ^ k)) / (2 ^ 52 * 2 ^ k)"
    unfolding q by (simp add: m_def)
  finally show ?thesis .
qed







lemma double_round_numeral:
  "(numeral k :: int) < 2 ^ 53 \<Longrightarrow> double_round (numeral k) = numeral k"
  using double_round_int [of "numeral k"] by simp


lemma float_of_int_dims:
  "float_of_int 1920 = 1920" "float_of_int 1080 = 1080" "float_of_int 100 = 100"
  by (simp_all add: float_of_int_def double_round_numeral)



text \<open>
  Two more instances, where the rounding of the product decides the pixel: the
  decimals 0.28 and 0.29 on a width of 100 both give pixel 28, although they are one
  pixel apart as real numbers, and 0.7 on a width of 1920 gives pixel 1344, although
  the double that 0.7 denotes is below 0.7.
\<close>

lemma double_028: "double_round (28 / 100) = 1261007895663739 / 4503599627370496"
  using double_round_below_one [of "28 / 100" 2] by (simp add: round_half_even_def)

lemma double_029: "double_round (29 / 100) = 5224175567749775 / 18014398509481984"
  using double_round_below_one [of "29 / 100" 2] by (simp add: round_half_even_def)

lemma double_07: "double_round (7 / 10) = 3152519739159347 / 4503599627370496"
  using double_round_below_one [of "7 / 10" 1] by (simp add: round_half_even_def)

lemma product_028_100:
  "double_round (1261007895663739 / 4503599627370496 * 100)
     = 7881299347898369 / 281474976710656"
  using double_round_at [of 4 "1261007895663739 / 4503599627370496 * 100"]
  by (simp add: round_half_even_def)

lemma product_029_100:
  "double_round (5224175567749775 / 18014398509481984 * 100)
     = 8162774324609023 / 281474976710656"
  using double_round_at [of 4 "5224175567749775 / 18014398509481984 * 100"]
  by (simp add: round_half_even_def)

lemma product_07_1920:
  "double_round (3152519739159347 / 4503599627370496 * 1920) = 1344"
  using double_round_at [of 10 "3152519739159347 / 4503599627370496 * 1920"]
  by (simp add: round_half_even_def)

lemma grab_region_bbox_rounded_products:
  "py_int (float_mul (double_round (28 / 100)) (float_of_int 100)) = 28 \<and>
   py_int (float_mul (double_round (29 / 100)) (float_of_int 100)) = 28 \<and>
   py_int (float_mul (double_round (7 / 10)) (float_of_int 1920)) = 1344"
proof -
  have i: "py_int (7881299347898369 / 281474976710656) = 28"
    "py_int (8162774324609023 / 281474976710656) = 28" "py_int 1344 = 1344"
    by (simp_all add: py_int_def)
  show ?thesis
    unfolding float_mul_def float_of_int_dims double_028 double_029 double_07
      product_028_100 product_029_100 product_07_1920 i
    by simp
qed

section \<open>Text: OCR output, the objective keyword and the timer pattern\<close>

subsection \<open>Python strings\<close>

text \<open>
  A Python \<^verbatim>\<open>str\<close> is a sequence of code points. The model is \<^typ>\<open>string\<close>, a list of
  \<^typ>\<open>char\<close>, each standing for the code point of its number: it covers the texts whose
  code points are below 256. On these, \<^verbatim>\<open>str.isspace\<close> holds of 9-13, 28-32, 133 and
  160, \<^verbatim>\<open>str.lower\<close> adds 32 to 65-90 and to 192-222 except 215, and the only decimal
  digits (\<^verbatim>\<open>\d\<close>) are 48-57.
\<close>

definition py_isspace :: "char \<Rightarrow> bool" where
  "py_isspace c =
     (let n = (of_char c :: nat)
      in (9 \<le> n \<and> n \<le> 13) \<or> (28 \<le> n \<and> n \<le> 32) \<or> n = 133 \<or> n = 160)"

definition lower_char :: "char \<Rightarrow> char" where
  "lower_char c =
     (let n = (of_char c :: nat)
      in if (65 \<le> n \<and> n \<le> 90) \<or> (192 \<le> n \<and> n \<le> 222 \<and> n \<noteq> 215)
         then char_of (n + 32) else c)"

text \<open>\<^verbatim>\<open>s.lower()\<close> and \<^verbatim>\<open>s.strip()\<close>.\<close>

definition lower :: "string \<Rightarrow> string" where
  "lower s = map lower_char s"

definition strip :: "string \<Rightarrow> string" where
  "strip s = rev (dropWhile py_isspace (rev (dropWhile py_isspace s)))"

text \<open>
  \<^verbatim>\<open>needle in hay\<close> on strings is the substring test, \<^term>\<open>sublist needle hay\<close> of the
  library: \<open>hay = ps @ needle @ ss\<close> for some \<open>ps\<close> and \<open>ss\<close>.
\<close>

definition is_digit :: "char \<Rightarrow> bool" where
  "is_digit c = (let n = (of_char c :: nat) in 48 \<le> n \<and> n \<le> 57)"

subsection \<open>The regular expression \<^verbatim>\<open>(\d{1,2}:\d{2})\<close>\<close>

text \<open>\<^verbatim>\<open>:\d{2}\<close> at the head of a string: the matched text, if it matches.\<close>

fun colon_two_digits :: "string \<Rightarrow> string option" where
  "colon_two_digits (c # e1 # e2 # rest) =
     (if c = CHR '':'' \<and> is_digit e1 \<and> is_digit e2 then Some [c, e1, e2] else None)"
| "colon_two_digits _ = None"

text \<open>
  The whole pattern anchored at the head of a string. \<^verbatim>\<open>\d{1,2}\<close> is greedy: two digits
  are tried first, and the matcher backtracks to one digit when the rest fails.
\<close>

fun match_timer_at :: "string \<Rightarrow> string option" where
  "match_timer_at [] = None"
| "match_timer_at (d1 # s1) =
     (if is_digit d1 then
        (case (case s1 of
                 [] \<Rightarrow> None
               | d2 # s2 \<Rightarrow>
                   if is_digit d2 then map_option (\<lambda>m. d1 # d2 # m) (colon_two_digits s2)
                   else None) of
           Some m \<Rightarrow> Some m
         | None \<Rightarrow> map_option (\<lambda>m. d1 # m) (colon_two_digits s1))
      else None)"

text \<open>
  \<^verbatim>\<open>re.search\<close> scans the start positions from the left and returns group 1 of the first
  position where the pattern matches.
\<close>

fun re_search_timer :: "string \<Rightarrow> string option" where
  "re_search_timer [] = None"
| "re_search_timer (c # cs) =
     (case match_timer_at (c # cs) of
        Some m \<Rightarrow> Some m
      | None \<Rightarrow> re_search_timer cs)"

subsection \<open>OCRReader.read_text and OCRReader.read_match_info (lines 107-114, 141-170)\<close>

text \<open>
  \<open>raw\<close> is what \<^verbatim>\<open>pytesseract.image_to_string\<close> returned for the preprocessed image.
\<close>

definition read_text :: "string \<Rightarrow> string" where
  "read_text raw = strip raw"

record match_info =
  has_objective :: bool
  timer_text :: "string option"

definition read_match_info :: "string \<Rightarrow> match_info" where
  "read_match_info raw =
     (let text = strip raw;
          result = \<lparr>has_objective = False, timer_text = None\<rparr>;
          text_lower = lower text;
          result = (if sublist ''objective'' text_lower \<or> sublist ''objectiv'' text_lower
                    then result\<lparr>has_objective := True\<rparr> else result);
          timer_match = re_search_timer text;
          result = (case timer_match of
                      Some g \<Rightarrow> result\<lparr>timer_text := Some g\<rparr>
                    | None \<Rightarrow> result)
      in result)"

text \<open>
  The clock pattern as the specification words it: one or two digits, a colon, then
  two digits.
\<close>

definition clock_pattern :: "string \<Rightarrow> bool" where
  "clock_pattern m \<longleftrightarrow>
     (\<exists>ds e1 e2. m = ds @ [CHR '':'', e1, e2] \<and> (length ds = 1 \<or> length ds = 2) \<and>
        list_all is_digit ds \<and> is_digit e1 \<and> is_digit e2)"

definition first_clock :: "string \<Rightarrow> string \<Rightarrow> bool" where
  "first_clock text m \<longleftrightarrow>
     (\<exists>ps ss. text = ps @ m @ ss \<and> clock_pattern m \<and>
        (\<forall>ps' m' ss'. text = ps' @ m' @ ss' \<and> clock_pattern m' \<longrightarrow> length ps \<le> length ps'))"

section \<open>OCRReader.read_match_info: the match signal\<close>

lemma colon_not_digit: "\<not> is_digit CHR '':''"
  by (simp add: is_digit_def)

lemma colon_two_digits_Some:
  "colon_two_digits s = Some m \<longleftrightarrow>
     (\<exists>e1 e2 rest. s = CHR '':'' # e1 # e2 # rest \<and> is_digit e1 \<and> is_digit e2 \<and>
        m = [CHR '':'', e1, e2])"
  by (cases s rule: colon_two_digits.cases) auto

lemma clock_pattern_cases:
  "clock_pattern m \<longleftrightarrow>
     (\<exists>d1 e1 e2. m = [d1, CHR '':'', e1, e2] \<and> is_digit d1 \<and> is_digit e1 \<and> is_digit e2) \<or>
     (\<exists>d1 d2 e1 e2. m = [d1, d2, CHR '':'', e1, e2] \<and> is_digit d1 \<and> is_digit d2 \<and>
        is_digit e1 \<and> is_digit e2)"
proof
  assume "clock_pattern m"
  then obtain ds e1 e2 where m: "m = ds @ [CHR '':'', e1, e2]"
    and len: "length ds = 1 \<or> length ds = 2"
    and dig: "list_all is_digit ds" "is_digit e1" "is_digit e2"
    unfolding clock_pattern_def by blast
  from len show "(\<exists>d1 e1 e2. m = [d1, CHR '':'', e1, e2] \<and> is_digit d1 \<and> is_digit e1 \<and> is_digit e2) \<or>
     (\<exists>d1 d2 e1 e2. m = [d1, d2, CHR '':'', e1, e2] \<and> is_digit d1 \<and> is_digit d2 \<and>
        is_digit e1 \<and> is_digit e2)"
  proof
    assume "length ds = 1"
    then obtain d1 where "ds = [d1]" by (cases ds) auto
    with m dig show ?thesis by auto
  next
    assume "length ds = 2"
    then obtain d1 d2 where "ds = [d1, d2]"
      by (cases ds; cases "tl ds") auto
    with m dig show ?thesis by auto
  qed
next
  assume "(\<exists>d1 e1 e2. m = [d1, CHR '':'', e1, e2] \<and> is_digit d1 \<and> is_digit e1 \<and> is_digit e2) \<or>
     (\<exists>d1 d2 e1 e2. m = [d1, d2, CHR '':'', e1, e2] \<and> is_digit d1 \<and> is_digit d2 \<and>
        is_digit e1 \<and> is_digit e2)"
  then show "clock_pattern m"
  proof
    assume "\<exists>d1 e1 e2. m = [d1, CHR '':'', e1, e2] \<and> is_digit d1 \<and> is_digit e1 \<and> is_digit e2"
    then obtain d1 e1 e2 where "m = [d1] @ [CHR '':'', e1, e2]" "is_digit d1" "is_digit e1" "is_digit e2"
      by auto
    then show ?thesis unfolding clock_pattern_def
      by (intro exI [of _ "[d1]"] exI [of _ e1] exI [of _ e2]) simp
  next
    assume "\<exists>d1 d2 e1 e2. m = [d1, d2, CHR '':'', e1, e2] \<and> is_digit d1 \<and> is_digit d2 \<and>
        is_digit e1 \<and> is_digit e2"
    then obtain d1 d2 e1 e2 where "m = [d1, d2] @ [CHR '':'', e1, e2]"
      "is_digit d1" "is_digit d2" "is_digit e1" "is_digit e2"
      by auto
    then show ?thesis unfolding clock_pattern_def
      by (intro exI [of _ "[d1, d2]"] exI [of _ e1] exI [of _ e2]) simp
  qed
qed

text \<open>The anchored matcher finds exactly the clock pattern that heads the string.\<close>

lemma match_timer_at_sound:
  "match_timer_at s = Some m \<Longrightarrow> clock_pattern m \<and> (\<exists>ss. s = m @ ss)"
  by (cases s; cases "tl s")
     (auto simp: clock_pattern_cases colon_two_digits_Some
           split: if_splits option.splits list.splits)

lemma match_timer_at_complete:
  "clock_pattern m \<Longrightarrow> match_timer_at (m @ ss) = Some m"
  by (auto simp: clock_pattern_cases colon_not_digit)

lemma match_timer_at_None:
  "match_timer_at s = None \<longleftrightarrow> \<not> (\<exists>m ss. s = m @ ss \<and> clock_pattern m)"
  using match_timer_at_sound match_timer_at_complete
  by (metis option.distinct(1) option.exhaust)

lemma clock_pattern_nonempty: "clock_pattern m \<Longrightarrow> m \<noteq> []"
  by (auto simp: clock_pattern_cases)

lemma re_search_timer_None:
  "re_search_timer s = None \<longleftrightarrow> \<not> (\<exists>ps m ss. s = ps @ m @ ss \<and> clock_pattern m)"
proof (induction s)
  case Nil
  then show ?case by (auto dest: clock_pattern_nonempty)
next
  case (Cons c cs)
  show ?case
  proof
    assume none: "re_search_timer (c # cs) = None"
    then have here: "match_timer_at (c # cs) = None" and later: "re_search_timer cs = None"
      by (auto split: option.splits)
    show "\<not> (\<exists>ps m ss. c # cs = ps @ m @ ss \<and> clock_pattern m)"
    proof
      assume "\<exists>ps m ss. c # cs = ps @ m @ ss \<and> clock_pattern m"
      then obtain ps m ss where eq: "c # cs = ps @ m @ ss" and cp: "clock_pattern m"
        by blast
      show False
      proof (cases ps)
        case Nil
        with eq cp here show False by (auto simp: match_timer_at_None)
      next
        case (Cons p ps')
        with eq have "cs = ps' @ m @ ss" by simp
        with cp later Cons.IH show False by blast
      qed
    qed
  next
    assume no: "\<not> (\<exists>ps m ss. c # cs = ps @ m @ ss \<and> clock_pattern m)"
    have here: "match_timer_at (c # cs) = None"
    proof (rule ccontr)
      assume "match_timer_at (c # cs) \<noteq> None"
      then obtain m where "match_timer_at (c # cs) = Some m" by auto
      from match_timer_at_sound [OF this] obtain ss where
        "clock_pattern m" "c # cs = [] @ m @ ss" by auto
      with no show False by blast
    qed
    have "\<not> (\<exists>ps m ss. cs = ps @ m @ ss \<and> clock_pattern m)"
    proof
      assume "\<exists>ps m ss. cs = ps @ m @ ss \<and> clock_pattern m"
      then obtain ps m ss where "cs = ps @ m @ ss" "clock_pattern m" by blast
      then have "c # cs = (c # ps) @ m @ ss \<and> clock_pattern m" by simp
      with no show False by blast
    qed
    with Cons.IH have "re_search_timer cs = None" by simp
    with here show "re_search_timer (c # cs) = None" by simp
  qed
qed

lemma re_search_timer_first:
  "re_search_timer s = Some m \<Longrightarrow> first_clock s m"
proof (induction s)
  case Nil
  then show ?case by simp
next
  case (Cons c cs)
  show ?case
  proof (cases "match_timer_at (c # cs)")
    case (Some m0)
    with Cons.prems have "m0 = m" by simp
    with Some match_timer_at_sound obtain ss where
      "clock_pattern m" "c # cs = [] @ m @ ss" by fastforce
    then show ?thesis unfolding first_clock_def
      by (intro exI [of _ "[]"] exI [of _ ss]) simp
  next
    case None
    with Cons.prems have "re_search_timer cs = Some m" by simp
    from Cons.IH [OF this] obtain ps ss where eq: "cs = ps @ m @ ss"
      and cp: "clock_pattern m"
      and least: "\<forall>ps' m' ss'. cs = ps' @ m' @ ss' \<and> clock_pattern m' \<longrightarrow> length ps \<le> length ps'"
      unfolding first_clock_def by blast
    have "length (c # ps) \<le> length ps'"
      if other: "c # cs = ps' @ m' @ ss'" "clock_pattern m'" for ps' m' ss'
    proof (cases ps')
      case Nil
      with other None show ?thesis by (auto simp: match_timer_at_None)
    next
      case (Cons p qs)
      with other have "cs = qs @ m' @ ss'" by simp
      with least other(2) have "length ps \<le> length qs" by blast
      with Cons show ?thesis by simp
    qed
    with eq cp show ?thesis unfolding first_clock_def
      by (intro exI [of _ "c # ps"] exI [of _ ss]) auto
  qed
qed

lemma first_clock_unique:
  assumes "first_clock s m" "first_clock s m'"
  shows "m = m'"
proof -
  from assms(1) obtain ps ss where a: "s = ps @ m @ ss" "clock_pattern m"
    and la: "\<forall>ps' m' ss'. s = ps' @ m' @ ss' \<and> clock_pattern m' \<longrightarrow> length ps \<le> length ps'"
    unfolding first_clock_def by blast
  from assms(2) obtain qs ts where b: "s = qs @ m' @ ts" "clock_pattern m'"
    and lb: "\<forall>ps' m'' ss'. s = ps' @ m'' @ ss' \<and> clock_pattern m'' \<longrightarrow> length qs \<le> length ps'"
    unfolding first_clock_def by blast
  from la b have "length ps \<le> length qs" by blast
  moreover from lb a have "length qs \<le> length ps" by blast
  ultimately have "length ps = length qs" by simp
  with a(1) b(1) have "ps = qs" and rest: "m @ ss = m' @ ts" by auto
  from a(2) have "match_timer_at (m @ ss) = Some m" by (rule match_timer_at_complete)
  moreover from b(2) have "match_timer_at (m' @ ts) = Some m'"
    by (rule match_timer_at_complete)
  ultimately show ?thesis using rest by simp
qed

lemma re_search_timer_iff: "re_search_timer s = Some m \<longleftrightarrow> first_clock s m"
proof
  assume "re_search_timer s = Some m"
  then show "first_clock s m" by (rule re_search_timer_first)
next
  assume fc: "first_clock s m"
  then have "\<exists>ps m ss. s = ps @ m @ ss \<and> clock_pattern m"
    unfolding first_clock_def by blast
  then have "re_search_timer s \<noteq> None" by (simp add: re_search_timer_None)
  then obtain m' where some: "re_search_timer s = Some m'" by auto
  then have "first_clock s m'" by (rule re_search_timer_first)
  with fc have "m = m'" by (rule first_clock_unique)
  with some show "re_search_timer s = Some m" by simp
qed

lemma objective_variant: "sublist ''objective'' s \<Longrightarrow> sublist ''objectiv'' s"
proof -
  assume "sublist ''objective'' s"
  then obtain ps ss where "s = ps @ ''objective'' @ ss" by (auto simp: sublist_def)
  then have "s = ps @ ''objectiv'' @ (CHR ''e'' # ss)" by simp
  then show ?thesis unfolding sublist_def by blast
qed

lemma has_objective_read_match_info:
  "has_objective (read_match_info raw) \<longleftrightarrow>
     sublist ''objective'' (lower (strip raw)) \<or> sublist ''objectiv'' (lower (strip raw))"
  by (simp add: read_match_info_def Let_def split: option.splits)

lemma timer_text_read_match_info:
  "timer_text (read_match_info raw) = re_search_timer (strip raw)"
  by (simp add: read_match_info_def Let_def split: option.splits)

text \<open>
  C4. The signal returned by \<open>read_match_info\<close>: \<open>has_objective\<close> is true exactly when
  the lowercased text contains the keyword \<open>objective\<close> or its truncated variant
  \<open>objectiv\<close> (that is, exactly when it contains \<open>objectiv\<close>), and \<open>timer_text\<close> is the
  first substring of the text that matches the clock pattern of one or two digits, a
  colon and two digits, or none when the text has no such substring.
\<close>

theorem read_match_info_signal:
  "(has_objective (read_match_info raw) \<longleftrightarrow>
      (\<exists>ps ss. lower (strip raw) = ps @ ''objective'' @ ss) \<or>
      (\<exists>ps ss. lower (strip raw) = ps @ ''objectiv'' @ ss)) \<and>
   (has_objective (read_match_info raw) \<longleftrightarrow>
      (\<exists>ps ss. lower (strip raw) = ps @ ''objectiv'' @ ss)) \<and>
   (\<forall>m. timer_text (read_match_info raw) = Some m \<longleftrightarrow> first_clock (strip raw) m) \<and>
   (timer_text (read_match_info raw) = None \<longleftrightarrow>
      \<not> (\<exists>ps m ss. strip raw = ps @ m @ ss \<and> clock_pattern m))"
proof -
  have a: "has_objective (read_match_info raw) \<longleftrightarrow>
      (\<exists>ps ss. lower (strip raw) = ps @ ''objective'' @ ss) \<or>
      (\<exists>ps ss. lower (strip raw) = ps @ ''objectiv'' @ ss)"
    unfolding has_objective_read_match_info sublist_def ..
  have b: "has_objective (read_match_info raw) \<longleftrightarrow>
      (\<exists>ps ss. lower (strip raw) = ps @ ''objectiv'' @ ss)"
    using objective_variant [of "lower (strip raw)"]
    unfolding has_objective_read_match_info by (auto simp: sublist_def)
  have c: "\<forall>m. timer_text (read_match_info raw) = Some m \<longleftrightarrow> first_clock (strip raw) m"
    by (simp add: timer_text_read_match_info re_search_timer_iff)
  have d: "timer_text (read_match_info raw) = None \<longleftrightarrow>
      \<not> (\<exists>ps m ss. strip raw = ps @ m @ ss \<and> clock_pattern m)"
    by (simp only: timer_text_read_match_info re_search_timer_None)
  from a b c d show ?thesis by blast
qed

theorem read_match_info_signal_witness:
  "read_match_info ''  Objectiv 5:07 / 12:30 '' =
     \<lparr>has_objective = True, timer_text = Some ''5:07''\<rparr> \<and>
   first_clock ''Objectiv 5:07 / 12:30'' ''5:07'' \<and>
   read_match_info ''Lobby'' = \<lparr>has_objective = False, timer_text = None\<rparr> \<and>
   \<not> (\<exists>ps m ss. ''Lobby'' = ps @ m @ ss \<and> clock_pattern m)"
proof -
  have e1: "read_match_info ''  Objectiv 5:07 / 12:30 '' =
     \<lparr>has_objective = True, timer_text = Some ''5:07''\<rparr>"
    by code_simp
  have e2: "read_match_info ''Lobby'' = \<lparr>has_objective = False, timer_text = None\<rparr>"
    by code_simp
  have s1: "strip ''  Objectiv 5:07 / 12:30 '' = ''Objectiv 5:07 / 12:30''" by code_simp
  have s2: "strip ''Lobby'' = ''Lobby''" by code_simp
  have "timer_text (read_match_info ''  Objectiv 5:07 / 12:30 '') = Some ''5:07'' \<longleftrightarrow>
      first_clock (strip ''  Objectiv 5:07 / 12:30 '') ''5:07''"
    using read_match_info_signal [of "''  Objectiv 5:07 / 12:30 ''"] by blast
  with e1 s1 have f: "first_clock ''Objectiv 5:07 / 12:30'' ''5:07''" by simp
  have "timer_text (read_match_info ''Lobby'') = None \<longleftrightarrow>
      \<not> (\<exists>ps m ss. strip ''Lobby'' = ps @ m @ ss \<and> clock_pattern m)"
    using read_match_info_signal [of "''Lobby''"] by blast
  with e2 s2 have n: "\<not> (\<exists>ps m ss. ''Lobby'' = ps @ m @ ss \<and> clock_pattern m)" by simp
  from e1 e2 f n show ?thesis by blast
qed

section \<open>The fuzzy matcher: \<^verbatim>\<open>difflib\<close> of the Python standard library\<close>

text \<open>
  \<open>read_weapon_name\<close> calls \<^verbatim>\<open>difflib.get_close_matches\<close>. The definitions of this
  section follow \<^verbatim>\<open>difflib.py\<close> and \<^verbatim>\<open>heapq.py\<close> of CPython 3.11 for a
  \<^verbatim>\<open>SequenceMatcher\<close> built as \<open>get_close_matches\<close> builds it: no junk predicate, the
  automatic junk heuristic on, first sequence \<open>a\<close> the vocabulary entry, second
  sequence \<open>b\<close> the word. A float ratio \<^verbatim>\<open>2.0 * matches / length\<close> is the real quotient.
\<close>

datatype py_error = ValueError

definition calculate_ratio :: "nat \<Rightarrow> nat \<Rightarrow> real" where
  "calculate_ratio matches len =
     (if len \<noteq> 0 then 2 * real matches / real len else 1)"

text \<open>
  \<^verbatim>\<open>__chain_b\<close>: an element is popular when \<open>b\<close> has at least 200 elements and the element
  occurs more than \<open>len(b) // 100 + 1\<close> times; \<open>b2j\<close> maps every other element of \<open>b\<close>
  to its indices in \<open>b\<close>, in increasing order. \<open>b2j b e\<close> is \<^verbatim>\<open>b2j.get(e, [])\<close>.
\<close>

definition bpopular :: "'a list \<Rightarrow> 'a \<Rightarrow> bool" where
  "bpopular b e \<longleftrightarrow> length b \<ge> 200 \<and> count_list b e > length b div 100 + 1"

definition b2j :: "'a list \<Rightarrow> 'a \<Rightarrow> nat list" where
  "b2j b e = (if bpopular b e then [] else filter (\<lambda>j. b ! j = e) [0..<length b])"

text \<open>
  \<^verbatim>\<open>find_longest_match\<close>, the inner loop over the indices \<open>j\<close> of \<open>a[i]\<close> in \<open>b\<close>. The
  state is \<open>newj2len\<close> and the best block so far; \<open>j2len\<close> is the dictionary of the row
  before. \<^verbatim>\<open>j2len.get(j-1, 0)\<close> at \<open>j = 0\<close> asks for the key \<open>-1\<close>, which is never there.
  Indices are natural numbers: \<open>i + 1 - k\<close> and \<open>j + 1 - k\<close> stand for \<^verbatim>\<open>i-k+1\<close> and
  \<^verbatim>\<open>j-k+1\<close>, and lose nothing, since \<open>k\<close> never exceeds \<open>i + 1 - alo\<close> or
  \<open>j + 1 - blo\<close> (lemma \<open>row_inv_step\<close> below). The matcher is only run on windows
  inside the two sequences, where every \<open>a ! i\<close> and \<open>b ! j\<close> it reads is in range.
\<close>

fun inner_loop ::
  "nat \<Rightarrow> nat \<Rightarrow> nat \<Rightarrow> (nat \<rightharpoonup> nat) \<Rightarrow> nat list \<Rightarrow>
     (nat \<rightharpoonup> nat) \<times> (nat \<times> nat \<times> nat) \<Rightarrow> (nat \<rightharpoonup> nat) \<times> (nat \<times> nat \<times> nat)" where
  "inner_loop i blo bhi j2len [] st = st"
| "inner_loop i blo bhi j2len (j # js) (newj2len, besti, bestj, bestsize) =
     (if j < blo then inner_loop i blo bhi j2len js (newj2len, besti, bestj, bestsize)
      else if j \<ge> bhi then (newj2len, besti, bestj, bestsize)
      else
        (let k = (if j = 0 then 0 else case j2len (j - 1) of None \<Rightarrow> 0 | Some v \<Rightarrow> v) + 1
         in inner_loop i blo bhi j2len js
              (newj2len(j \<mapsto> k),
               if k > bestsize then (i + 1 - k, j + 1 - k, k) else (besti, bestj, bestsize))))"

text \<open>The outer loop \<^verbatim>\<open>for i in range(alo, ahi)\<close>; the state is \<open>j2len\<close> and the best block.\<close>

fun outer_loop ::
  "'a list \<Rightarrow> 'a list \<Rightarrow> nat \<Rightarrow> nat \<Rightarrow> nat list \<Rightarrow>
     (nat \<rightharpoonup> nat) \<times> (nat \<times> nat \<times> nat) \<Rightarrow> nat \<times> nat \<times> nat" where
  "outer_loop a b blo bhi [] (j2len, best) = best"
| "outer_loop a b blo bhi (i # is) (j2len, best) =
     outer_loop a b blo bhi is (inner_loop i blo bhi j2len (b2j b (a ! i)) (Map.empty, best))"

text \<open>
  The two \<^verbatim>\<open>while\<close> loops that extend the block by equal elements on each end. Their
  test \<^verbatim>\<open>not isbjunk(...)\<close> is always true and the test \<^verbatim>\<open>isbjunk(...)\<close> of the two
  loops after them always false, since the junk set is empty.
\<close>

function extend_left :: "'a list \<Rightarrow> 'a list \<Rightarrow> nat \<Rightarrow> nat \<Rightarrow> nat \<times> nat \<times> nat \<Rightarrow> nat \<times> nat \<times> nat" where
  "extend_left a b alo blo (besti, bestj, bestsize) =
     (if besti > alo \<and> bestj > blo \<and> a ! (besti - 1) = b ! (bestj - 1)
      then extend_left a b alo blo (besti - 1, bestj - 1, bestsize + 1)
      else (besti, bestj, bestsize))"
  by pat_completeness auto
termination
  by (relation "measure (\<lambda>(a, b, alo, blo, besti, bestj, bestsize). besti)") auto

function extend_right :: "'a list \<Rightarrow> 'a list \<Rightarrow> nat \<Rightarrow> nat \<Rightarrow> nat \<times> nat \<times> nat \<Rightarrow> nat \<times> nat \<times> nat" where
  "extend_right a b ahi bhi (besti, bestj, bestsize) =
     (if besti + bestsize < ahi \<and> bestj + bestsize < bhi \<and>
         a ! (besti + bestsize) = b ! (bestj + bestsize)
      then extend_right a b ahi bhi (besti, bestj, bestsize + 1)
      else (besti, bestj, bestsize))"
  by pat_completeness auto
termination
  by (relation "measure (\<lambda>(a, b, ahi, bhi, besti, bestj, bestsize). ahi - (besti + bestsize))")
     auto

declare extend_left.simps [simp del] extend_right.simps [simp del]

definition find_longest_match ::
  "'a list \<Rightarrow> 'a list \<Rightarrow> nat \<Rightarrow> nat \<Rightarrow> nat \<Rightarrow> nat \<Rightarrow> nat \<times> nat \<times> nat" where
  "find_longest_match a b alo ahi blo bhi =
     extend_right a b ahi bhi
       (extend_left a b alo blo
          (outer_loop a b blo bhi [alo..<ahi] (Map.empty, (alo, blo, 0))))"

subsection \<open>The block that \<open>find_longest_match\<close> returns is a match inside the window\<close>

fun block_inv ::
  "'a list \<Rightarrow> 'a list \<Rightarrow> nat \<Rightarrow> nat \<Rightarrow> nat \<Rightarrow> nat \<Rightarrow> nat \<times> nat \<times> nat \<Rightarrow> bool" where
  "block_inv a b alo ahi blo bhi (i, j, k) \<longleftrightarrow>
     alo \<le> i \<and> blo \<le> j \<and> (k = 0 \<longrightarrow> i = alo \<and> j = blo) \<and>
     (0 < k \<longrightarrow> i + k \<le> ahi \<and> j + k \<le> bhi) \<and>
     (\<forall>d<k. a ! (i + d) = b ! (j + d))"

text \<open>
  What the dictionary \<open>j2len\<close> holds when row \<open>i\<close> starts: lengths of matches that end
  at \<open>a[i-1]\<close> and \<open>b[j]\<close> inside the window.
\<close>

definition row_inv ::
  "'a list \<Rightarrow> 'a list \<Rightarrow> nat \<Rightarrow> nat \<Rightarrow> nat \<Rightarrow> nat \<Rightarrow> (nat \<rightharpoonup> nat) \<Rightarrow> bool" where
  "row_inv a b alo blo bhi i m \<longleftrightarrow>
     (\<forall>j v. m j = Some v \<longrightarrow>
        1 \<le> v \<and> alo + v \<le> i \<and> blo + v \<le> j + 1 \<and> j < bhi \<and>
        (\<forall>d<v. a ! (i - v + d) = b ! (j + 1 - v + d)))"

lemma row_inv_empty: "row_inv a b alo blo bhi i Map.empty"
  by (simp add: row_inv_def)

lemma row_inv_step:
  assumes prev: "row_inv a b alo blo bhi i j2len"
    and new: "row_inv a b alo blo bhi (Suc i) newj2len"
    and i: "alo \<le> i" and j: "blo \<le> j" "j < bhi" and eq: "b ! j = a ! i"
    and k: "k = (if j = 0 then 0 else case j2len (j - 1) of None \<Rightarrow> 0 | Some v \<Rightarrow> v) + 1"
  shows "row_inv a b alo blo bhi (Suc i) (newj2len(j \<mapsto> k)) \<and>
         (1 \<le> k \<and> alo + k \<le> Suc i \<and> blo + k \<le> j + 1 \<and> j < bhi \<and>
          (\<forall>d<k. a ! (Suc i - k + d) = b ! (j + 1 - k + d)))"
proof -
  have single: "1 \<le> k \<and> alo + k \<le> Suc i \<and> blo + k \<le> j + 1 \<and> j < bhi \<and>
         (\<forall>d<k. a ! (Suc i - k + d) = b ! (j + 1 - k + d))" if k1: "k = 1"
  proof -
    have "a ! (Suc i - k + d) = b ! (j + 1 - k + d)" if "d < k" for d
    proof -
      from that k1 have "d = 0" by arith
      then have "Suc i - k + d = i" "j + 1 - k + d = j" using k1 by arith+
      with eq show ?thesis by (simp only:)
    qed
    moreover have "1 \<le> k" "alo + k \<le> Suc i" "blo + k \<le> j + 1"
      using k1 i j by arith+
    ultimately show ?thesis using j(2) by blast
  qed
  have facts: "1 \<le> k \<and> alo + k \<le> Suc i \<and> blo + k \<le> j + 1 \<and> j < bhi \<and>
         (\<forall>d<k. a ! (Suc i - k + d) = b ! (j + 1 - k + d))"
  proof (cases j)
    case 0
    with k have "k = 1" by simp
    then show ?thesis by (rule single)
  next
    case (Suc j')
    show ?thesis
    proof (cases "j2len j'")
      case None
      with k Suc have "k = 1" by simp
      then show ?thesis by (rule single)
    next
      case (Some v)
      with k Suc have kv: "k = Suc v" by simp
      from prev Some have pv: "1 \<le> v" "alo + v \<le> i" "blo + v \<le> j' + 1"
        and seg: "\<forall>d<v. a ! (i - v + d) = b ! (j' + 1 - v + d)"
        unfolding row_inv_def by blast+
      have "a ! (Suc i - k + d) = b ! (j + 1 - k + d)" if "d < k" for d
      proof (cases "d < v")
        case True
        with seg have "a ! (i - v + d) = b ! (j' + 1 - v + d)" by blast
        moreover have "Suc i - k = i - v" "j + 1 - k = j' + 1 - v"
          unfolding kv Suc by arith+
        ultimately show ?thesis by (simp only:)
      next
        case False
        with that kv have d: "d = v" by arith
        from pv(2) have "Suc i - k + d = i" unfolding kv d by arith
        moreover from pv(3) have "j + 1 - k + d = j" unfolding kv d Suc by arith
        ultimately show ?thesis using eq by (simp only:)
      qed
      moreover have "alo + k \<le> Suc i" using pv(2) kv by arith
      moreover have "blo + k \<le> j + 1" using pv(3) kv Suc by arith
      moreover have "1 \<le> k" using kv by arith
      ultimately show ?thesis using j(2) by blast
    qed
  qed
  have "row_inv a b alo blo bhi (Suc i) (newj2len(j \<mapsto> k))"
    unfolding row_inv_def
  proof (intro allI impI)
    fix j' v
    assume h: "(newj2len(j \<mapsto> k)) j' = Some v"
    show "1 \<le> v \<and> alo + v \<le> Suc i \<and> blo + v \<le> j' + 1 \<and> j' < bhi \<and>
        (\<forall>d<v. a ! (Suc i - v + d) = b ! (j' + 1 - v + d))"
    proof (cases "j' = j")
      case True
      with h have vk: "v = k" by simp
      from facts show ?thesis unfolding True vk .
    next
      case False
      with h have "newj2len j' = Some v" by simp
      with new show ?thesis unfolding row_inv_def by blast
    qed
  qed
  with facts show ?thesis by blast
qed

lemma inner_loop_in_window:
  assumes "\<not> j < blo" "\<not> j \<ge> bhi"
    and "k = (if j = 0 then 0 else case j2len (j - 1) of None \<Rightarrow> 0 | Some v \<Rightarrow> v) + 1"
  shows "inner_loop i blo bhi j2len (j # js) (newj2len, besti, bestj, bestsize) =
     inner_loop i blo bhi j2len js
       (newj2len(j \<mapsto> k),
        if k > bestsize then (i + 1 - k, j + 1 - k, k) else (besti, bestj, bestsize))"
  unfolding inner_loop.simps Let_def assms(3) using assms(1,2) by (simp only: if_False)

lemma inner_loop_inv:
  assumes "row_inv a b alo blo bhi i j2len" "alo \<le> i" "i < ahi"
    and "\<forall>j \<in> set js. b ! j = a ! i"
    and "row_inv a b alo blo bhi (Suc i) newj2len"
    and "block_inv a b alo ahi blo bhi best"
    and "inner_loop i blo bhi j2len js (newj2len, best) = (m', best')"
  shows "row_inv a b alo blo bhi (Suc i) m' \<and> block_inv a b alo ahi blo bhi best'"
  using assms(4-)
proof (induction js arbitrary: newj2len best)
  case Nil
  then show ?case by simp
next
  case (Cons j js)
  obtain besti bestj bestsize where best: "best = (besti, bestj, bestsize)"
    by (cases best)
  from Cons.prems(1) have eq: "b ! j = a ! i" and rest: "\<forall>j \<in> set js. b ! j = a ! i"
    by simp_all
  show ?case
  proof (cases "j < blo")
    case True
    with Cons.prems(4) best
    have "inner_loop i blo bhi j2len js (newj2len, best) = (m', best')" by simp
    from Cons.IH [OF rest Cons.prems(2) Cons.prems(3) this] show ?thesis .
  next
    case lo: False
    show ?thesis
    proof (cases "j \<ge> bhi")
      case True
      with lo Cons.prems(4) best have "m' = newj2len" "best' = best" by simp_all
      with Cons.prems show ?thesis by simp
    next
      case hi: False
      define k where "k = (if j = 0 then 0 else case j2len (j - 1) of None \<Rightarrow> 0 | Some v \<Rightarrow> v) + 1"
      define nbest where "nbest = (if k > bestsize then (i + 1 - k, j + 1 - k, k) else best)"
      from lo hi have j: "blo \<le> j" "j < bhi" by simp_all
      from row_inv_step [OF assms(1) Cons.prems(2) assms(2) j eq k_def]
      have row: "row_inv a b alo blo bhi (Suc i) (newj2len(j \<mapsto> k))"
        and kf: "alo + k \<le> Suc i" "blo + k \<le> j + 1" "1 \<le> k"
          "\<forall>d<k. a ! (Suc i - k + d) = b ! (j + 1 - k + d)"
        by blast+
      have "block_inv a b alo ahi blo bhi (i + 1 - k, j + 1 - k, k)"
        unfolding block_inv.simps
      proof (intro conjI impI)
        show "alo \<le> i + 1 - k" using kf(1) by arith
        show "blo \<le> j + 1 - k" using kf(2) by arith
        show "i + 1 - k = alo" if "k = 0" using that kf(3) by arith
        show "j + 1 - k = blo" if "k = 0" using that kf(3) by arith
        show "i + 1 - k + k \<le> ahi" using kf(1) assms(3) by arith
        show "j + 1 - k + k \<le> bhi" using kf(2) j(2) by arith
        show "\<forall>d<k. a ! (i + 1 - k + d) = b ! (j + 1 - k + d)"
          using kf(4) by (simp only: Suc_eq_plus1)
      qed
      with Cons.prems(3) have nb: "block_inv a b alo ahi blo bhi nbest"
        by (simp add: nbest_def)
      from Cons.prems(4) inner_loop_in_window [of j blo bhi k j2len i js newj2len besti bestj bestsize, OF lo hi k_def]
      have "inner_loop i blo bhi j2len js (newj2len(j \<mapsto> k), nbest) = (m', best')"
        unfolding nbest_def best by (simp only:)
      from Cons.IH [OF rest row nb this] show ?thesis .
    qed
  qed
qed

lemma b2j_eq: "j \<in> set (b2j b e) \<Longrightarrow> b ! j = e"
  by (auto simp: b2j_def split: if_splits)

lemma outer_loop_inv:
  assumes "alo \<le> i0" "row_inv a b alo blo bhi i0 j2len"
    and "block_inv a b alo ahi blo bhi best"
  shows "block_inv a b alo ahi blo bhi (outer_loop a b blo bhi [i0..<ahi] (j2len, best))"
  using assms
proof (induction "ahi - i0" arbitrary: i0 j2len best)
  case 0
  then show ?case by simp
next
  case (Suc n)
  then have lt: "i0 < ahi" by simp
  then have upt: "[i0..<ahi] = i0 # [Suc i0..<ahi]" by (simp add: upt_conv_Cons)
  obtain m' best' where step:
    "inner_loop i0 blo bhi j2len (b2j b (a ! i0)) (Map.empty, best) = (m', best')"
    by (cases "inner_loop i0 blo bhi j2len (b2j b (a ! i0)) (Map.empty, best)")
  have "\<forall>j \<in> set (b2j b (a ! i0)). b ! j = a ! i0" by (simp add: b2j_eq)
  from inner_loop_inv [OF Suc.prems(2) Suc.prems(1) lt this row_inv_empty Suc.prems(3) step]
  have row: "row_inv a b alo blo bhi (Suc i0) m'" and blk: "block_inv a b alo ahi blo bhi best'"
    by simp_all
  from Suc.hyps(2) have n: "n = ahi - Suc i0" by simp
  from Suc.prems(1) have "alo \<le> Suc i0" by simp
  from Suc.hyps(1) [OF n this row blk] upt step show ?case by simp
qed

lemma extend_left_inv:
  "block_inv a b alo ahi blo bhi best \<Longrightarrow>
     block_inv a b alo ahi blo bhi (extend_left a b alo blo best)"
proof (induction a b alo blo best rule: extend_left.induct)
  case (1 a b alo blo besti bestj bestsize)
  note unfold = extend_left.simps [of a b alo blo besti bestj bestsize]
  from "1.prems" have p: "alo \<le> besti" "blo \<le> bestj"
    "bestsize = 0 \<longrightarrow> besti = alo \<and> bestj = blo"
    "0 < bestsize \<longrightarrow> besti + bestsize \<le> ahi \<and> bestj + bestsize \<le> bhi"
    "\<forall>d<bestsize. a ! (besti + d) = b ! (bestj + d)"
    unfolding block_inv.simps by blast+
  show ?case
  proof (cases "besti > alo \<and> bestj > blo \<and> a ! (besti - 1) = b ! (bestj - 1)")
    case True
    then have gt: "alo < besti" "blo < bestj" and eq: "a ! (besti - 1) = b ! (bestj - 1)"
      by blast+
    from gt p(3) have pos: "0 < bestsize" by arith
    have seg: "a ! (besti - 1 + d) = b ! (bestj - 1 + d)" if "d < bestsize + 1" for d
    proof (cases d)
      case 0
      with eq show ?thesis by simp
    next
      case (Suc d')
      with that have "d' < bestsize" by arith
      with p(5) have "a ! (besti + d') = b ! (bestj + d')" by blast
      moreover from gt Suc have "besti - 1 + d = besti + d'" "bestj - 1 + d = bestj + d'"
        by arith+
      ultimately show ?thesis by (simp only:)
    qed
    have "block_inv a b alo ahi blo bhi (besti - 1, bestj - 1, bestsize + 1)"
      unfolding block_inv.simps
    proof (intro conjI impI)
      show "alo \<le> besti - 1" using gt by arith
      show "blo \<le> bestj - 1" using gt by arith
      show "besti - 1 = alo" if "bestsize + 1 = 0" using that by arith
      show "bestj - 1 = blo" if "bestsize + 1 = 0" using that by arith
      show "besti - 1 + (bestsize + 1) \<le> ahi" using p(4) pos gt by arith
      show "bestj - 1 + (bestsize + 1) \<le> bhi" using p(4) pos gt by arith
      show "\<forall>d<bestsize + 1. a ! (besti - 1 + d) = b ! (bestj - 1 + d)"
        using seg by blast
    qed
    from "1.IH" [OF True this] unfold True show ?thesis by simp
  next
    case False
    then have "extend_left a b alo blo (besti, bestj, bestsize) = (besti, bestj, bestsize)"
      by (subst extend_left.simps) auto
    with "1.prems" show ?thesis by (simp only:)
  qed
qed

lemma extend_right_inv:
  "block_inv a b alo ahi blo bhi best \<Longrightarrow>
     block_inv a b alo ahi blo bhi (extend_right a b ahi bhi best)"
proof (induction a b ahi bhi best rule: extend_right.induct)
  case (1 a b ahi bhi besti bestj bestsize)
  note unfold = extend_right.simps [of a b ahi bhi besti bestj bestsize]
  from "1.prems" have p: "alo \<le> besti" "blo \<le> bestj"
    "\<forall>d<bestsize. a ! (besti + d) = b ! (bestj + d)"
    unfolding block_inv.simps by blast+
  show ?case
  proof (cases "besti + bestsize < ahi \<and> bestj + bestsize < bhi \<and>
         a ! (besti + bestsize) = b ! (bestj + bestsize)")
    case True
    then have lt: "besti + bestsize < ahi" "bestj + bestsize < bhi"
      and eq: "a ! (besti + bestsize) = b ! (bestj + bestsize)"
      by blast+
    have seg: "a ! (besti + d) = b ! (bestj + d)" if "d < bestsize + 1" for d
    proof (cases "d < bestsize")
      case True
      with p(3) show ?thesis by blast
    next
      case False
      with that have "d = bestsize" by arith
      with eq show ?thesis by (simp only:)
    qed
    have "block_inv a b alo ahi blo bhi (besti, bestj, bestsize + 1)"
      unfolding block_inv.simps
    proof (intro conjI impI)
      show "alo \<le> besti" by (rule p(1))
      show "blo \<le> bestj" by (rule p(2))
      show "besti = alo" if "bestsize + 1 = 0" using that by arith
      show "bestj = blo" if "bestsize + 1 = 0" using that by arith
      show "besti + (bestsize + 1) \<le> ahi" using lt by arith
      show "bestj + (bestsize + 1) \<le> bhi" using lt by arith
      show "\<forall>d<bestsize + 1. a ! (besti + d) = b ! (bestj + d)" using seg by blast
    qed
    from "1.IH" [OF True this] unfold True show ?thesis by simp
  next
    case False
    then have "extend_right a b ahi bhi (besti, bestj, bestsize) = (besti, bestj, bestsize)"
      by (subst extend_right.simps) auto
    with "1.prems" show ?thesis by (simp only:)
  qed
qed

lemma find_longest_match_inv:
  "block_inv a b alo ahi blo bhi (find_longest_match a b alo ahi blo bhi)"
  unfolding find_longest_match_def
  by (intro extend_right_inv extend_left_inv outer_loop_inv row_inv_empty) simp_all

subsection \<open>Matching blocks and the three ratios\<close>

lemma find_longest_match_window:
  assumes "find_longest_match a b alo ahi blo bhi = (i, j, k)" "k \<noteq> 0"
  shows "alo \<le> i \<and> i + k \<le> ahi \<and> blo \<le> j \<and> j + k \<le> bhi"
proof -
  from find_longest_match_inv [of a b alo ahi blo bhi] assms(1)
  have "block_inv a b alo ahi blo bhi (i, j, k)" by (simp only:)
  with assms(2) show ?thesis unfolding block_inv.simps by blast
qed

text \<open>
  The queue loop of \<^verbatim>\<open>get_matching_blocks\<close>: the list \<^verbatim>\<open>matching_blocks\<close> in the order in
  which the loop appends to it. The queue is a stack (\<^verbatim>\<open>queue.pop()\<close>), so the window to
  the right of a block is handled before the window to its left. The source then sorts
  the list, merges adjacent blocks and appends a block of size 0: none of these changes
  the sum of the sizes, which is all that \<^verbatim>\<open>ratio\<close> reads.
\<close>

function matching_blocks ::
  "'a list \<Rightarrow> 'a list \<Rightarrow> nat \<Rightarrow> nat \<Rightarrow> nat \<Rightarrow> nat \<Rightarrow> (nat \<times> nat \<times> nat) list" where
  "matching_blocks a b alo ahi blo bhi =
     (let x = find_longest_match a b alo ahi blo bhi;
          i = fst x; j = fst (snd x); k = snd (snd x)
      in if k \<noteq> 0 then
           x # (if i + k < ahi \<and> j + k < bhi
                then matching_blocks a b (i + k) ahi (j + k) bhi else [])
             @ (if alo < i \<and> blo < j then matching_blocks a b alo i blo j else [])
         else [])"
  by pat_completeness auto
termination
proof (relation "measure (\<lambda>(a, b, alo, ahi, blo, bhi). ahi - alo)")
  show "wf (measure (\<lambda>(a, b, alo, ahi, blo, bhi). ahi - alo))" by simp
next
  fix a b :: "'a list" and alo ahi blo bhi :: nat and x xa xb xc
  assume "x = find_longest_match a b alo ahi blo bhi" "xa = fst x" "xb = fst (snd x)"
    "xc = snd (snd x)" "xc \<noteq> 0" "xa + xc < ahi \<and> xb + xc < bhi"
  then have "find_longest_match a b alo ahi blo bhi = (xa, xb, xc)" "xc \<noteq> 0" by simp_all
  from find_longest_match_window [OF this] \<open>xa + xc < ahi \<and> xb + xc < bhi\<close> \<open>xc \<noteq> 0\<close>
  have "ahi - (xa + xc) < ahi - alo" by arith
  then show "((a, b, xa + xc, ahi, xb + xc, bhi), a, b, alo, ahi, blo, bhi)
          \<in> measure (\<lambda>(a, b, alo, ahi, blo, bhi). ahi - alo)"
    by simp
next
  fix a b :: "'a list" and alo ahi blo bhi :: nat and x xa xb xc
  assume "x = find_longest_match a b alo ahi blo bhi" "xa = fst x" "xb = fst (snd x)"
    "xc = snd (snd x)" "xc \<noteq> 0" "alo < xa \<and> blo < xb"
  then have "find_longest_match a b alo ahi blo bhi = (xa, xb, xc)" "xc \<noteq> 0" by simp_all
  from find_longest_match_window [OF this] \<open>alo < xa \<and> blo < xb\<close> \<open>xc \<noteq> 0\<close>
  have "xa - alo < ahi - alo" by arith
  then show "((a, b, alo, xa, blo, xb), a, b, alo, ahi, blo, bhi)
          \<in> measure (\<lambda>(a, b, alo, ahi, blo, bhi). ahi - alo)"
    by simp
qed

declare matching_blocks.simps [simp del]

text \<open>\<^verbatim>\<open>ratio\<close>, \<^verbatim>\<open>quick_ratio\<close> and \<^verbatim>\<open>real_quick_ratio\<close> of the matcher with sequences \<open>a\<close>, \<open>b\<close>.\<close>

definition matches_total :: "'a list \<Rightarrow> 'a list \<Rightarrow> nat" where
  "matches_total a b =
     sum_list (map (\<lambda>triple. snd (snd triple)) (matching_blocks a b 0 (length a) 0 (length b)))"

definition ratio :: "'a list \<Rightarrow> 'a list \<Rightarrow> real" where
  "ratio a b = calculate_ratio (matches_total a b) (length a + length b)"

text \<open>
  The loop of \<^verbatim>\<open>quick_ratio\<close> over the elements of \<open>a\<close>; \<open>fullbcount e\<close> is
  \<^verbatim>\<open>fullbcount.get(e, 0)\<close>, the number of times \<open>e\<close> occurs in \<open>b\<close>.
\<close>

fun quick_loop :: "('a \<Rightarrow> nat) \<Rightarrow> 'a list \<Rightarrow> ('a \<rightharpoonup> int) \<Rightarrow> nat \<Rightarrow> nat" where
  "quick_loop fullbcount [] avail matches = matches"
| "quick_loop fullbcount (elt # rest) avail matches =
     (let numb = (case avail elt of Some n \<Rightarrow> n | None \<Rightarrow> int (fullbcount elt))
      in quick_loop fullbcount rest (avail(elt \<mapsto> numb - 1))
           (if numb > 0 then matches + 1 else matches))"

definition quick_ratio :: "'a list \<Rightarrow> 'a list \<Rightarrow> real" where
  "quick_ratio a b =
     calculate_ratio (quick_loop (count_list b) a Map.empty 0) (length a + length b)"

definition real_quick_ratio :: "'a list \<Rightarrow> 'a list \<Rightarrow> real" where
  "real_quick_ratio a b =
     calculate_ratio (min (length a) (length b)) (length a + length b)"

subsection \<open>\<^verbatim>\<open>get_close_matches\<close> with \<open>n = 1\<close>\<close>

text \<open>
  Python orders the pairs \<open>(score, x)\<close> by score and then by the strings, which it
  compares code point by code point.
\<close>

fun str_less :: "string \<Rightarrow> string \<Rightarrow> bool" where
  "str_less [] [] \<longleftrightarrow> False"
| "str_less [] (y # ys) \<longleftrightarrow> True"
| "str_less (x # xs) [] \<longleftrightarrow> False"
| "str_less (x # xs) (y # ys) \<longleftrightarrow>
     (of_char x :: nat) < of_char y \<or> (x = y \<and> str_less xs ys)"

definition tuple_less :: "real \<times> string \<Rightarrow> real \<times> string \<Rightarrow> bool" where
  "tuple_less p q \<longleftrightarrow> fst p < fst q \<or> (fst p = fst q \<and> str_less (snd p) (snd q))"

text \<open>
  \<^verbatim>\<open>heapq.nlargest(1, result)\<close> is \<^verbatim>\<open>max(result)\<close>, or the empty list for an empty
  \<open>result\<close>; \<^verbatim>\<open>max\<close> keeps the first of the largest items it meets.
\<close>

fun py_max :: "real \<times> string \<Rightarrow> (real \<times> string) list \<Rightarrow> real \<times> string" where
  "py_max m [] = m"
| "py_max m (x # xs) = py_max (if tuple_less m x then x else m) xs"

definition nlargest1 :: "(real \<times> string) list \<Rightarrow> (real \<times> string) list" where
  "nlargest1 result = (case result of [] \<Rightarrow> [] | x # xs \<Rightarrow> [py_max x xs])"

text \<open>
  \<^verbatim>\<open>get_close_matches(word, possibilities, n=1, cutoff)\<close>. The test \<^verbatim>\<open>n > 0\<close> passes;
  a cutoff outside \<open>[0, 1]\<close> raises \<^verbatim>\<open>ValueError\<close>.
\<close>

definition get_close_matches :: "string \<Rightarrow> string list \<Rightarrow> real \<Rightarrow> py_error + string list" where
  "get_close_matches word possibilities cutoff =
     (if \<not> (0 \<le> cutoff \<and> cutoff \<le> 1) then Inl ValueError
      else
        (let result = map (\<lambda>x. (ratio x word, x))
               (filter (\<lambda>x. real_quick_ratio x word \<ge> cutoff \<and> quick_ratio x word \<ge> cutoff \<and>
                             ratio x word \<ge> cutoff) possibilities)
         in Inr (map snd (nlargest1 result))))"

subsection \<open>OCRReader.read_weapon_name (lines 116-139)\<close>

text \<open>
  \<open>confidence\<close> is \<^verbatim>\<open>ocr.confidence_threshold\<close>, \<open>weapon_names\<close> the vocabulary and \<open>raw\<close>
  what Tesseract returned for the weapon region.
\<close>

definition read_weapon_name :: "real \<Rightarrow> string list \<Rightarrow> string \<Rightarrow> py_error + string option" where
  "read_weapon_name confidence weapon_names raw =
     (let raw_text = read_text raw
      in if raw_text = [] then Inr None
         else
           (case find (\<lambda>name. lower name = lower raw_text) weapon_names of
              Some name \<Rightarrow> Inr (Some name)
            | None \<Rightarrow>
                (case get_close_matches raw_text weapon_names confidence of
                   Inl e \<Rightarrow> Inl e
                 | Inr matches \<Rightarrow>
                     (case matches of [] \<Rightarrow> Inr None | m # _ \<Rightarrow> Inr (Some m)))))"

subsection \<open>\<open>quick_ratio\<close> and \<open>real_quick_ratio\<close> are upper bounds of \<open>ratio\<close>\<close>














section \<open>OCRReader.read_weapon_name: exact match, then fuzzy match\<close>








text \<open>
  C10. The fuzzy step compares the raw text with the vocabulary entries as they are,
  case included, while the exact step lowercases both sides. There is an input that
  differs from a vocabulary entry only by letter case and one substituted character,
  for which \<open>read_weapon_name\<close> returns none although the similarity of the
  lowercased strings reaches the threshold: with the vocabulary \<open>Vector\<close> and the
  threshold 0.6, the text \<open>VECTOX\<close> has similarity 1/6 to the entry and resolves to
  none, its lowercase form has similarity 5/6 to the lowercased entry, and the same
  substitution in the entry's own casing (\<open>Vectox\<close>) resolves to the entry.
\<close>

theorem fuzzy_step_case_sensitive:
  "\<exists>raw name. name \<in> set [''Vector''] \<and>
      lower raw = (lower name)[5 := CHR ''x''] \<and>
      read_weapon_name (3 / 5) [''Vector''] raw = Inr None \<and>
      ratio name raw = 1 / 6 \<and>
      3 / 5 \<le> ratio (lower name) (lower raw) \<and>
      read_weapon_name (3 / 5) [''Vector''] (name[5 := CHR ''x'']) = Inr (Some name)"
proof (intro exI conjI)
  show "''Vector'' \<in> set [''Vector'']" by simp
  show "lower ''VECTOX'' = (lower ''Vector'')[5 := CHR ''x'']" by code_simp
  show "read_weapon_name (3 / 5) [''Vector''] ''VECTOX'' = Inr None" by code_simp
  show "ratio ''Vector'' ''VECTOX'' = 1 / 6" by code_simp
  show "3 / 5 \<le> ratio (lower ''Vector'') (lower ''VECTOX'')" by code_simp
  show "read_weapon_name (3 / 5) [''Vector''] (''Vector''[5 := CHR ''x'']) = Inr (Some ''Vector'')"
    by code_simp
qed

section \<open>DiscordRPC (lines 227-311) and the main loop (lines 346-382)\<close>

subsection \<open>DiscordRPC\<close>

text \<open>
  The keyword arguments of \<^verbatim>\<open>rpc.update\<close> are a dictionary from names to strings or
  integers. Of the object, \<open>rpc_set\<close> says that \<^verbatim>\<open>self.rpc\<close> is not \<^verbatim>\<open>None\<close>, and
  \<open>show_character\<close>, \<open>show_timer\<close> are the truth values of
  \<^verbatim>\<open>display.get("show_character", True)\<close> and \<^verbatim>\<open>display.get("show_timer", True)\<close>.
\<close>

datatype pyval = PyStr string | PyInt int

type_synonym kwargs = "string \<rightharpoonup> pyval"

record DiscordRPC =
  small_image :: string
  large_text :: string
  show_character :: bool
  show_timer :: bool
  character_icons :: "string \<rightharpoonup> string"
  rpc_set :: bool
  connected :: bool

text \<open>
  What the transport did when called: \<^verbatim>\<open>Presence(...)\<close> or \<^verbatim>\<open>rpc.connect()\<close> may raise,
  and \<^verbatim>\<open>rpc.update\<close> may raise \<^verbatim>\<open>InvalidID\<close> or another exception.
\<close>

datatype connect_outcome = ConnectOk | PresenceRaises | ConnectRaises

datatype publish_outcome = PublishOk | InvalidID | PublishRaises

text \<open>\<^verbatim>\<open>connect\<close>: the object afterwards and the returned flag.\<close>

definition connect :: "DiscordRPC \<Rightarrow> connect_outcome \<Rightarrow> DiscordRPC \<times> bool" where
  "connect d outcome =
     (case outcome of
        ConnectOk \<Rightarrow> (d\<lparr>rpc_set := True, connected := True\<rparr>, True)
      | PresenceRaises \<Rightarrow> (d\<lparr>connected := False\<rparr>, False)
      | ConnectRaises \<Rightarrow> (d\<lparr>rpc_set := True, connected := False\<rparr>, False))"

text \<open>
  The dictionary \<^verbatim>\<open>kwargs\<close> that \<^verbatim>\<open>update\<close> builds (lines 262-288). A name is true when
  it is neither \<^verbatim>\<open>None\<close> nor empty, a timestamp when it is neither \<^verbatim>\<open>None\<close> nor zero.
\<close>

definition presence_kwargs :: "DiscordRPC \<Rightarrow> string option \<Rightarrow> real option \<Rightarrow> kwargs" where
  "presence_kwargs d character_name match_start_ts =
     (let kwargs = Map.empty;
          kwargs =
            (case character_name of
               Some name \<Rightarrow>
                 if name \<noteq> [] \<and> show_character d then
                   (let kwargs =
                          (case character_icons d name of
                             Some icon_key \<Rightarrow>
                               if icon_key \<noteq> [] then
                                 kwargs(''large_image'' \<mapsto> PyStr icon_key,
                                        ''large_text'' \<mapsto> PyStr name)
                               else
                                 kwargs(''large_image'' \<mapsto> PyStr (small_image d),
                                        ''large_text'' \<mapsto> PyStr (large_text d))
                           | None \<Rightarrow>
                               kwargs(''large_image'' \<mapsto> PyStr (small_image d),
                                      ''large_text'' \<mapsto> PyStr (large_text d)))
                    in kwargs(''small_image'' \<mapsto> PyStr (small_image d),
                              ''small_text'' \<mapsto> PyStr (large_text d),
                              ''details'' \<mapsto> PyStr (''Playing as '' @ name)))
                 else
                   kwargs(''large_image'' \<mapsto> PyStr (small_image d),
                          ''large_text'' \<mapsto> PyStr (large_text d),
                          ''details'' \<mapsto> PyStr ''In Game'')
             | None \<Rightarrow>
                 kwargs(''large_image'' \<mapsto> PyStr (small_image d),
                        ''large_text'' \<mapsto> PyStr (large_text d),
                        ''details'' \<mapsto> PyStr ''In Game''))
      in (case match_start_ts of
            Some ts \<Rightarrow>
              if ts \<noteq> 0 \<and> show_timer d then
                kwargs(''start'' \<mapsto> PyInt (py_int ts), ''state'' \<mapsto> PyStr ''In Match'')
              else kwargs(''state'' \<mapsto> PyStr ''In Menu'')
          | None \<Rightarrow> kwargs(''state'' \<mapsto> PyStr ''In Menu'')))"

text \<open>
  \<^verbatim>\<open>update\<close>: the object afterwards, and the dictionary handed to \<^verbatim>\<open>rpc.update\<close> when
  the call was made. The method never raises: both \<^verbatim>\<open>except\<close> clauses return.
\<close>

definition DiscordRPC_update ::
  "DiscordRPC \<Rightarrow> string option \<Rightarrow> real option \<Rightarrow> publish_outcome \<Rightarrow> DiscordRPC \<times> kwargs option" where
  "DiscordRPC_update d character_name match_start_ts outcome =
     (if \<not> connected d \<or> \<not> rpc_set d then (d, None)
      else
        (let kwargs = presence_kwargs d character_name match_start_ts
         in case outcome of
              PublishOk \<Rightarrow> (d, Some kwargs)
            | InvalidID \<Rightarrow> (d\<lparr>connected := False\<rparr>, Some kwargs)
            | PublishRaises \<Rightarrow> (d, Some kwargs)))"

subsection \<open>One iteration of the main loop\<close>

text \<open>
  The configuration read once at startup: the fuzzy cutoff and the weapon map, whose
  keys in order are the vocabulary.
\<close>

record config =
  confidence :: real
  weapon_map :: "(string \<times> string) list"

record loop_state =
  current_character :: "string option"
  tracker :: MatchTracker
  discord :: DiscordRPC

text \<open>
  What the collaborators do during one iteration: the Tesseract output for the two
  regions (\<open>None\<close> when the capture or the OCR raises), the clock reading, and the
  outcomes of \<^verbatim>\<open>rpc.update\<close> and of a reconnect, should the iteration call them.
\<close>

record tick_input =
  weapon_ocr :: "string option"
  match_ocr :: "string option"
  clock :: real
  publish :: publish_outcome
  reconnect :: connect_outcome

text \<open>
  What an iteration did to the transport: the dictionary it published, if any, and how
  many times it called \<^verbatim>\<open>discord.connect()\<close>.
\<close>

record tick_events =
  published :: "kwargs option"
  connect_calls :: nat

definition no_events :: tick_events where
  "no_events = \<lparr>published = None, connect_calls = 0\<rparr>"

text \<open>Step 1 of the loop body (lines 353-357): the character after the weapon lookup.\<close>

definition lookup_character ::
  "(string \<times> string) list \<Rightarrow> string option \<Rightarrow> string option \<Rightarrow> string option" where
  "lookup_character wmap current weapon_name =
     (case weapon_name of
        Some wn \<Rightarrow>
          if wn \<noteq> [] then
            (case map_of wmap wn of
               Some char \<Rightarrow> if char \<noteq> [] \<and> Some char \<noteq> current then Some char else current
             | None \<Rightarrow> current)
          else current
      | None \<Rightarrow> current)"

text \<open>
  The body of the \<^verbatim>\<open>try\<close> in the loop. An exception in the capture or the OCR ends the
  iteration at the \<^verbatim>\<open>except\<close> clause with what was assigned before it.
\<close>

definition main_tick :: "config \<Rightarrow> loop_state \<Rightarrow> tick_input \<Rightarrow> loop_state \<times> tick_events" where
  "main_tick cfg s inp =
     (case weapon_ocr inp of
        None \<Rightarrow> (s, no_events)
      | Some wraw \<Rightarrow>
          (case read_weapon_name (confidence cfg) (map fst (weapon_map cfg)) wraw of
             Inl e \<Rightarrow> (s, no_events)
           | Inr weapon_name \<Rightarrow>
               (let s = s\<lparr>current_character :=
                          lookup_character (weapon_map cfg) (current_character s) weapon_name\<rparr>
                in case match_ocr inp of
                     None \<Rightarrow> (s, no_events)
                   | Some mraw \<Rightarrow>
                       (let match_info = read_match_info mraw;
                            s = s\<lparr>tracker :=
                                   MatchTracker_update (tracker s) (has_objective match_info) (clock inp)\<rparr>;
                            s = (if \<not> in_match (tracker s) then s\<lparr>current_character := None\<rparr>
                                 else s);
                            upd = DiscordRPC_update (discord s) (current_character s)
                                    (start_timestamp (tracker s)) (publish inp);
                            s = s\<lparr>discord := fst upd\<rparr>
                        in if \<not> connected (discord s) then
                             (s\<lparr>discord := fst (connect (discord s) (reconnect inp))\<rparr>,
                              \<lparr>published = snd upd, connect_calls = 1\<rparr>)
                           else (s, \<lparr>published = snd upd, connect_calls = 0\<rparr>)))))"

text \<open>
  The iteration reaches the presence update when neither capture nor OCR raises and the
  fuzzy matcher accepts the cutoff.
\<close>

definition reaches_update :: "config \<Rightarrow> tick_input \<Rightarrow> bool" where
  "reaches_update cfg inp \<longleftrightarrow>
     (case weapon_ocr inp of
        None \<Rightarrow> False
      | Some wraw \<Rightarrow>
          (case read_weapon_name (confidence cfg) (map fst (weapon_map cfg)) wraw of
             Inl e \<Rightarrow> False
           | Inr weapon_name \<Rightarrow> match_ocr inp \<noteq> None))"

text \<open>
  The state when the loop starts (lines 329-341): the startup loop has returned from a
  successful \<^verbatim>\<open>connect\<close>. \<open>main_run\<close> is the state after a sequence of iterations.
\<close>

definition main_init :: "int \<Rightarrow> DiscordRPC \<Rightarrow> loop_state" where
  "main_init threshold d =
     \<lparr>current_character = None, tracker = MatchTracker_init threshold,
      discord = d\<lparr>rpc_set := True, connected := True\<rparr>\<rparr>"

fun main_run :: "config \<Rightarrow> loop_state \<Rightarrow> tick_input list \<Rightarrow> loop_state" where
  "main_run cfg s [] = s"
| "main_run cfg s (inp # inps) = main_run cfg (fst (main_tick cfg s inp)) inps"

section \<open>The presence payload outside a match\<close>

lemma presence_kwargs_menu:
  "presence_kwargs d None None =
     [''large_image'' \<mapsto> PyStr (small_image d), ''large_text'' \<mapsto> PyStr (large_text d),
      ''details'' \<mapsto> PyStr ''In Game'', ''state'' \<mapsto> PyStr ''In Menu'']"
  by (simp add: presence_kwargs_def)

lemma DiscordRPC_update_published:
  "DiscordRPC_update d c ts out = (d', Some kw) \<Longrightarrow> kw = presence_kwargs d c ts"
  by (auto simp: DiscordRPC_update_def Let_def split: if_splits publish_outcome.splits)

lemma DiscordRPC_update_config:
  "small_image (fst (DiscordRPC_update d c ts out)) = small_image d \<and>
   large_text (fst (DiscordRPC_update d c ts out)) = large_text d"
  by (simp add: DiscordRPC_update_def Let_def split: publish_outcome.splits)

lemma connect_config:
  "small_image (fst (connect d out)) = small_image d \<and>
   large_text (fst (connect d out)) = large_text d"
  by (simp add: connect_def split: connect_outcome.splits)

text \<open>
  An iteration that publishes has run the tracker update, cleared the character when the
  tracker is not in a match, and published the dictionary built from that state.
\<close>

lemma main_tick_published:
  assumes "main_tick cfg s inp = (s', ev)" "published ev = Some kw"
  shows "(\<exists>h. tracker s' = MatchTracker_update (tracker s) h (clock inp)) \<and>
         (\<not> in_match (tracker s') \<longrightarrow> current_character s' = None) \<and>
         kw = presence_kwargs (discord s) (current_character s') (start_timestamp (tracker s'))"
proof -
  from assms obtain wraw where w: "weapon_ocr inp = Some wraw"
    by (cases "weapon_ocr inp") (auto simp: main_tick_def no_events_def)
  from assms w obtain weapon_name where
    r: "read_weapon_name (confidence cfg) (map fst (weapon_map cfg)) wraw = Inr weapon_name"
    by (cases "read_weapon_name (confidence cfg) (map fst (weapon_map cfg)) wraw")
       (auto simp: main_tick_def no_events_def)
  from assms w r obtain mraw where m: "match_ocr inp = Some mraw"
    by (cases "match_ocr inp") (auto simp: main_tick_def no_events_def Let_def)
  define tr where
    "tr = MatchTracker_update (tracker s) (has_objective (read_match_info mraw)) (clock inp)"
  define cc where "cc = (if \<not> in_match tr then None
     else lookup_character (weapon_map cfg) (current_character s) weapon_name)"
  define upd where "upd = DiscordRPC_update (discord s) cc (start_timestamp tr) (publish inp)"
  from assms(1) w r m have s': "tracker s' = tr" "current_character s' = cc"
    and ev: "published ev = snd upd"
    by (auto simp: main_tick_def Let_def tr_def cc_def upd_def split: if_splits)
  from ev assms(2) have "upd = (fst upd, Some kw)" by (cases upd) simp
  then have "kw = presence_kwargs (discord s) cc (start_timestamp tr)"
    unfolding upd_def by (rule DiscordRPC_update_published)
  with s' show ?thesis by (auto simp: tr_def cc_def)
qed

lemma main_tick_tracker:
  "tracker (fst (main_tick cfg s inp)) = tracker s \<or>
   (\<exists>h. tracker (fst (main_tick cfg s inp)) = MatchTracker_update (tracker s) h (clock inp))"
  by (auto simp: main_tick_def Let_def split: option.splits sum.splits)

lemma main_tick_config:
  "small_image (discord (fst (main_tick cfg s inp))) = small_image (discord s) \<and>
   large_text (discord (fst (main_tick cfg s inp))) = large_text (discord s)"
  by (simp add: main_tick_def Let_def DiscordRPC_update_config connect_config
      split: option.splits sum.splits)

lemma main_run_paired:
  "start_paired (tracker s) \<Longrightarrow> start_paired (tracker (main_run cfg s inps))"
proof (induction inps arbitrary: s)
  case Nil
  then show ?case by simp
next
  case (Cons inp inps)
  from main_tick_tracker [of cfg s inp] Cons.prems
  have "start_paired (tracker (fst (main_tick cfg s inp)))"
    by (auto simp: start_paired_update)
  from Cons.IH [OF this] show ?case by simp
qed

lemma main_run_config:
  "small_image (discord (main_run cfg s inps)) = small_image (discord s) \<and>
   large_text (discord (main_run cfg s inps)) = large_text (discord s)"
proof (induction inps arbitrary: s)
  case Nil
  then show ?case by simp
next
  case (Cons inp inps)
  from Cons.IH [of "fst (main_tick cfg s inp)"] main_tick_config [of cfg s inp]
  show ?case by simp
qed

text \<open>
  C5. In every iteration of the main loop, from the state reached after any earlier
  iterations, in which the tracker's \<open>in_match\<close> is false after its update (the
  iteration of the exit from a match included): the presence payload that the
  iteration builds has the generic branding image and text, details \<open>In Game\<close>, state
  \<open>In Menu\<close> and no start timestamp, and the cached character is cleared, whatever
  character the earlier iterations had resolved.
\<close>

theorem menu_payload_when_not_in_match:
  assumes "main_tick cfg (main_run cfg (main_init th d) inps) inp = (s', ev)"
    and "\<not> in_match (tracker s')"
    and "published ev = Some kw"
  shows "kw ''large_image'' = Some (PyStr (small_image d)) \<and>
         kw ''large_text'' = Some (PyStr (large_text d)) \<and>
         kw ''details'' = Some (PyStr ''In Game'') \<and>
         kw ''state'' = Some (PyStr ''In Menu'') \<and>
         kw ''start'' = None \<and>
         dom kw = {''large_image'', ''large_text'', ''details'', ''state''} \<and>
         current_character s' = None"
proof -
  define s where "s = main_run cfg (main_init th d) inps"
  have "start_paired (tracker (main_init th d))"
    by (simp add: main_init_def start_paired_init)
  then have paired: "start_paired (tracker s)" unfolding s_def by (rule main_run_paired)
  have cfg: "small_image (discord s) = small_image d" "large_text (discord s) = large_text d"
    unfolding s_def using main_run_config [of cfg "main_init th d" inps]
    by (simp_all add: main_init_def)
  from main_tick_published [OF assms(1) [folded s_def] assms(3)]
  obtain h where tr: "tracker s' = MatchTracker_update (tracker s) h (clock inp)"
    and cc: "\<not> in_match (tracker s') \<longrightarrow> current_character s' = None"
    and kw: "kw = presence_kwargs (discord s) (current_character s') (start_timestamp (tracker s'))"
    by blast
  from paired tr have "start_paired (tracker s')" by (simp add: start_paired_update)
  with assms(2) have "start_timestamp (tracker s') = None"
    by (simp add: start_paired_def start_timestamp_def)
  with kw cc assms(2) have "kw = presence_kwargs (discord s) None None" by simp
  with cfg cc assms(2) show ?thesis by (auto simp: presence_kwargs_menu)
qed

text \<open>A sample configuration and sample iterations for the closed instances below.\<close>

definition sample_config :: config where
  "sample_config =
     \<lparr>confidence = 3 / 5, weapon_map = [(''Vector'', ''Kokona''), (''Kriss'', ''Michele'')]\<rparr>"

definition sample_discord :: DiscordRPC where
  "sample_discord =
     \<lparr>small_image = ''strinova_logo'', large_text = ''Strinova'', show_character = True,
      show_timer = True, character_icons = [''Kokona'' \<mapsto> ''kokona''], rpc_set = False,
      connected = False\<rparr>"

definition sample_tick :: "string \<Rightarrow> string \<Rightarrow> real \<Rightarrow> publish_outcome \<Rightarrow> tick_input" where
  "sample_tick w m c p =
     \<lparr>weapon_ocr = Some w, match_ocr = Some m, clock = c, publish = p, reconnect = ConnectOk\<rparr>"

definition in_match_ticks :: "tick_input list" where
  "in_match_ticks =
     [sample_tick ''Vector'' ''Objective A 1:45'' 100 PublishOk,
      sample_tick [] [] 101 PublishOk, sample_tick [] [] 102 PublishOk]"

theorem menu_payload_when_not_in_match_witness:
  "current_character (main_run sample_config (main_init 3 sample_discord) in_match_ticks)
     = Some ''Kokona'' \<and>
   in_match (tracker (main_run sample_config (main_init 3 sample_discord) in_match_ticks)) \<and>
   \<not> in_match (tracker (fst (main_tick sample_config
        (main_run sample_config (main_init 3 sample_discord) in_match_ticks)
        (sample_tick ''Vector'' [] 103 PublishOk)))) \<and>
   map (the (published (snd (main_tick sample_config
        (main_run sample_config (main_init 3 sample_discord) in_match_ticks)
        (sample_tick ''Vector'' [] 103 PublishOk)))))
       [''large_image'', ''large_text'', ''details'', ''state'', ''start'']
     = [Some (PyStr ''strinova_logo''), Some (PyStr ''Strinova''), Some (PyStr ''In Game''),
        Some (PyStr ''In Menu''), None] \<and>
   current_character (fst (main_tick sample_config
        (main_run sample_config (main_init 3 sample_discord) in_match_ticks)
        (sample_tick ''Vector'' [] 103 PublishOk))) = None"
proof -
  define s where "s = main_run sample_config (main_init 3 sample_discord) in_match_ticks"
  define r where "r = main_tick sample_config s (sample_tick ''Vector'' [] 103 PublishOk)"
  have before: "current_character s = Some ''Kokona'' \<and> in_match (tracker s)"
    unfolding s_def by code_simp
  have out: "\<not> in_match (tracker (fst r))" unfolding r_def s_def by code_simp
  have "\<not> Option.is_none (published (snd r))" unfolding r_def s_def by code_simp
  then obtain kw where kw: "published (snd r) = Some kw"
    by (auto simp: Option.is_none_def)
  have run: "main_tick sample_config
      (main_run sample_config (main_init 3 sample_discord) in_match_ticks)
      (sample_tick ''Vector'' [] 103 PublishOk) = (fst r, snd r)"
    by (simp add: r_def s_def)
  from menu_payload_when_not_in_match [OF run out kw] kw before out
  show ?thesis unfolding r_def s_def by (simp add: sample_discord_def)
qed

section \<open>Publish failures and reconnection\<close>

text \<open>
  C7 (as amended). A publish failure that is an invalid session marks the connection
  unusable, and among the outcomes of a publish only that one does. Every \<open>update\<close>
  call made while the connection is unusable is a no-op. The main loop calls
  \<open>connect\<close> exactly once at the end of the iteration in which the failure occurs, and
  exactly once at the end of every later iteration that reaches the presence update
  while the connection is unusable; the connection is usable again as soon as one of
  these calls succeeds. Any other publish failure returns from \<open>update\<close> without
  raising and leaves the connection as it was, with no call of \<open>connect\<close>, so the
  next iteration publishes again.
\<close>

theorem publish_failure_handling:
  "(connected d \<and> rpc_set d \<longrightarrow>
      DiscordRPC_update d c ts InvalidID
        = (d\<lparr>connected := False\<rparr>, Some (presence_kwargs d c ts)) \<and>
      DiscordRPC_update d c ts PublishRaises = (d, Some (presence_kwargs d c ts)) \<and>
      DiscordRPC_update d c ts PublishOk = (d, Some (presence_kwargs d c ts))) \<and>
   (\<not> connected d \<longrightarrow> DiscordRPC_update d c ts out = (d, None)) \<and>
   (reaches_update cfg inp \<and> main_tick cfg s inp = (s', ev) \<longrightarrow>
      (connected (discord s) \<and> rpc_set (discord s) \<and> publish inp = InvalidID \<longrightarrow>
         published ev \<noteq> None \<and> connect_calls ev = 1 \<and>
         (connected (discord s') \<longleftrightarrow> reconnect inp = ConnectOk)) \<and>
      (\<not> connected (discord s) \<longrightarrow>
         published ev = None \<and> connect_calls ev = 1 \<and>
         (connected (discord s') \<longleftrightarrow> reconnect inp = ConnectOk)) \<and>
      (connected (discord s) \<and> rpc_set (discord s) \<and> publish inp \<noteq> InvalidID \<longrightarrow>
         published ev \<noteq> None \<and> connect_calls ev = 0 \<and> discord s' = discord s))"
proof (intro conjI impI)
  assume "connected d \<and> rpc_set d"
  then show "DiscordRPC_update d c ts InvalidID
        = (d\<lparr>connected := False\<rparr>, Some (presence_kwargs d c ts))"
    "DiscordRPC_update d c ts PublishRaises = (d, Some (presence_kwargs d c ts))"
    "DiscordRPC_update d c ts PublishOk = (d, Some (presence_kwargs d c ts))"
    by (simp_all add: DiscordRPC_update_def)
next
  assume "\<not> connected d"
  then show "DiscordRPC_update d c ts out = (d, None)"
    by (simp add: DiscordRPC_update_def)
next
  assume a: "reaches_update cfg inp \<and> main_tick cfg s inp = (s', ev)"
  then obtain wraw weapon_name mraw where w: "weapon_ocr inp = Some wraw"
    and r: "read_weapon_name (confidence cfg) (map fst (weapon_map cfg)) wraw = Inr weapon_name"
    and m: "match_ocr inp = Some mraw"
    by (auto simp: reaches_update_def split: option.splits sum.splits)
  define tr where
    "tr = MatchTracker_update (tracker s) (has_objective (read_match_info mraw)) (clock inp)"
  define cc where "cc = (if \<not> in_match tr then None
     else lookup_character (weapon_map cfg) (current_character s) weapon_name)"
  define upd where "upd = DiscordRPC_update (discord s) cc (start_timestamp tr) (publish inp)"
  from a w r m have ev: "published ev = snd upd"
    and calls: "connect_calls ev = (if \<not> connected (fst upd) then 1 else 0)"
    and d': "discord s' = (if \<not> connected (fst upd)
        then fst (connect (fst upd) (reconnect inp)) else fst upd)"
    by (auto simp: main_tick_def Let_def tr_def cc_def upd_def split: if_splits)
  have conn: "connected (fst (connect x (reconnect inp))) \<longleftrightarrow> reconnect inp = ConnectOk" for x
    by (simp add: connect_def split: connect_outcome.splits)
  {
    assume "connected (discord s) \<and> rpc_set (discord s) \<and> publish inp = InvalidID"
    then have "upd = ((discord s)\<lparr>connected := False\<rparr>,
        Some (presence_kwargs (discord s) cc (start_timestamp tr)))"
      by (simp add: upd_def DiscordRPC_update_def)
    with ev calls d' conn
    show "published ev \<noteq> None" "connect_calls ev = 1"
      "connected (discord s') \<longleftrightarrow> reconnect inp = ConnectOk"
      by simp_all
  next
    assume "\<not> connected (discord s)"
    then have "upd = (discord s, None)" by (simp add: upd_def DiscordRPC_update_def)
    with ev calls d' conn \<open>\<not> connected (discord s)\<close>
    show "published ev = None" "connect_calls ev = 1"
      "connected (discord s') \<longleftrightarrow> reconnect inp = ConnectOk"
      by simp_all
  next
    assume b: "connected (discord s) \<and> rpc_set (discord s) \<and> publish inp \<noteq> InvalidID"
    then have "upd = (discord s, Some (presence_kwargs (discord s) cc (start_timestamp tr)))"
      by (cases "publish inp") (simp_all add: upd_def DiscordRPC_update_def)
    with ev calls d' b
    show "published ev \<noteq> None" "connect_calls ev = 0" "discord s' = discord s"
      by simp_all
  }
qed

text \<open>
  The reconnect is made in the iteration of the failure, not in a later one: when the
  publish of the first iteration fails with an invalid session and the reconnect
  succeeds, that iteration has called \<open>connect\<close> once and leaves the connection usable,
  and the next iteration publishes (its \<open>update\<close> is not a no-op) and calls
  \<open>connect\<close> not at all.
\<close>

theorem reconnect_in_failing_tick:
  "connect_calls (snd (main_tick sample_config (main_init 3 sample_discord)
      (sample_tick [] [] 100 InvalidID))) = 1 \<and>
   connected (discord (fst (main_tick sample_config (main_init 3 sample_discord)
      (sample_tick [] [] 100 InvalidID)))) \<and>
   \<not> Option.is_none (published (snd (main_tick sample_config
      (fst (main_tick sample_config (main_init 3 sample_discord)
         (sample_tick [] [] 100 InvalidID)))
      (sample_tick [] [] 101 PublishOk)))) \<and>
   connect_calls (snd (main_tick sample_config
      (fst (main_tick sample_config (main_init 3 sample_discord)
         (sample_tick [] [] 100 InvalidID)))
      (sample_tick [] [] 101 PublishOk))) = 0"
  by code_simp

theorem publish_failure_handling_witness:
  "reaches_update sample_config (sample_tick [] [] 100 InvalidID) \<and>
   connected (discord (main_init 3 sample_discord)) \<and>
   rpc_set (discord (main_init 3 sample_discord)) \<and>
   \<not> Option.is_none (published (snd (main_tick sample_config (main_init 3 sample_discord)
      (sample_tick [] [] 100 InvalidID)))) \<and>
   connect_calls (snd (main_tick sample_config (main_init 3 sample_discord)
      (sample_tick [] [] 100 InvalidID))) = 1 \<and>
   connected (discord (fst (main_tick sample_config (main_init 3 sample_discord)
      (sample_tick [] [] 100 InvalidID)))) \<and>
   discord (fst (main_tick sample_config (main_init 3 sample_discord)
      (sample_tick [] [] 100 PublishRaises))) = discord (main_init 3 sample_discord)"
proof -
  have reach: "reaches_update sample_config (sample_tick [] [] 100 p)" for p
    by (simp add: reaches_update_def sample_tick_def sample_config_def read_weapon_name_def
        read_text_def strip_def)
  have init: "connected (discord (main_init 3 sample_discord)) \<and>
      rpc_set (discord (main_init 3 sample_discord))"
    by (simp add: main_init_def)
  have pub: "publish (sample_tick [] [] 100 p) = p"
    and rec: "reconnect (sample_tick [] [] 100 p) = ConnectOk" for p
    by (simp_all add: sample_tick_def)
  note t = publish_failure_handling [of _ _ _ _ sample_config _ "main_init 3 sample_discord"]
  from t [of _ _ _ _ "sample_tick [] [] 100 InvalidID"
      "fst (main_tick sample_config (main_init 3 sample_discord) (sample_tick [] [] 100 InvalidID))"
      "snd (main_tick sample_config (main_init 3 sample_discord) (sample_tick [] [] 100 InvalidID))"]
    reach init pub rec
  have a: "published (snd (main_tick sample_config (main_init 3 sample_discord)
        (sample_tick [] [] 100 InvalidID))) \<noteq> None \<and>
      connect_calls (snd (main_tick sample_config (main_init 3 sample_discord)
        (sample_tick [] [] 100 InvalidID))) = 1 \<and>
      connected (discord (fst (main_tick sample_config (main_init 3 sample_discord)
        (sample_tick [] [] 100 InvalidID))))"
    by simp
  from t [of _ _ _ _ "sample_tick [] [] 100 PublishRaises"
      "fst (main_tick sample_config (main_init 3 sample_discord) (sample_tick [] [] 100 PublishRaises))"
      "snd (main_tick sample_config (main_init 3 sample_discord) (sample_tick [] [] 100 PublishRaises))"]
    reach init pub rec
  have b: "discord (fst (main_tick sample_config (main_init 3 sample_discord)
      (sample_tick [] [] 100 PublishRaises))) = discord (main_init 3 sample_discord)"
    by simp
  from a b reach init show ?thesis by (auto simp: Option.is_none_def)
qed

end
